theory Spec2Isabelle
  imports Complex_Main "HOL-Library.Word"
begin

section \<open>JavaScript values\<close>

text \<open>
  A JavaScript string is a sequence of UTF-16 code units; \<open>length\<close>, \<open>substring\<close> and
  \<open>trim\<close> all work on code units. \<open>str\<close> turns an ASCII literal into such a sequence.
\<close>

type_synonym code_unit = "16 word"
type_synonym jsstring = "code_unit list"

definition str :: "string \<Rightarrow> jsstring" where
  "str cs = map of_char cs"

text \<open>
  The values that reach the storage utilities: what \<open>JSON.parse\<close> can return, plus
  \<open>undefined\<close>. Numbers carry integers only (timestamps are \<open>Date.now()\<close> values); the
  functions below never look inside a number other than to test it against zero.
\<close>

datatype jsvalue =
    JUndefined
  | JNull
  | JBool bool
  | JNum int
  | JStr jsstring
  | JArr "jsvalue list"
  | JObj "(jsstring \<times> jsvalue) list"

text \<open>\<open>!v\<close> is \<open>\<not> truthy v\<close>.\<close>

fun truthy :: "jsvalue \<Rightarrow> bool" where
  "truthy JUndefined = False"
| "truthy JNull = False"
| "truthy (JBool b) = b"
| "truthy (JNum n) = (n \<noteq> 0)"
| "truthy (JStr s) = (s \<noteq> [])"
| "truthy (JArr xs) = True"
| "truthy (JObj fs) = True"

fun typeof :: "jsvalue \<Rightarrow> string" where
  "typeof JUndefined = ''undefined''"
| "typeof JNull = ''object''"
| "typeof (JBool b) = ''boolean''"
| "typeof (JNum n) = ''number''"
| "typeof (JStr s) = ''string''"
| "typeof (JArr xs) = ''object''"
| "typeof (JObj fs) = ''object''"

fun isArray :: "jsvalue \<Rightarrow> bool" where
  "isArray (JArr xs) = True"
| "isArray v = False"

text \<open>Property read \<open>v.k\<close>: \<open>undefined\<close> when the property is absent.\<close>

fun getProp :: "jsvalue \<Rightarrow> jsstring \<Rightarrow> jsvalue" where
  "getProp (JObj fs) k = (case map_of fs k of Some v \<Rightarrow> v | None \<Rightarrow> JUndefined)"
| "getProp v k = JUndefined"

text \<open>
  \<open>String.prototype.trim\<close> removes leading and trailing white space and line
  terminators (ECMAScript \<open>WhiteSpace\<close> and \<open>LineTerminator\<close>).
\<close>

definition isWhiteSpace :: "code_unit \<Rightarrow> bool" where
  "isWhiteSpace c \<longleftrightarrow>
     c = 0x9 \<or> c = 0xA \<or> c = 0xB \<or> c = 0xC \<or> c = 0xD \<or> c = 0x20 \<or> c = 0xA0 \<or>
     c = 0x1680 \<or> (0x2000 \<le> c \<and> c \<le> 0x200A) \<or> c = 0x2028 \<or> c = 0x2029 \<or>
     c = 0x202F \<or> c = 0x205F \<or> c = 0x3000 \<or> c = 0xFEFF"

definition trim :: "jsstring \<Rightarrow> jsstring" where
  "trim s = rev (dropWhile isWhiteSpace (rev (dropWhile isWhiteSpace s)))"

text \<open>\<open>text.substring(0, n)\<close> and \<open>xs.slice(0, n)\<close> for a natural \<open>n\<close>.\<close>

definition substring0 :: "jsstring \<Rightarrow> nat \<Rightarrow> jsstring" where
  "substring0 s n = take n s"

definition slice0 :: "'a list \<Rightarrow> nat \<Rightarrow> 'a list" where
  "slice0 xs n = take n xs"

section \<open>utils/storage: the persisted history\<close>

text \<open>
  The two \<open>JSON\<close> built-ins are taken from the runtime. \<open>JSON_parse\<close> returns \<open>None\<close>
  where \<open>JSON.parse\<close> throws a SyntaxError.
\<close>

record js_runtime =
  JSON_parse :: "jsstring \<Rightarrow> jsvalue option"
  JSON_stringify :: "jsvalue \<Rightarrow> jsstring"

datatype error = StorageError | SyntaxError | TypeError | UnexpectedError

text \<open>
  AsyncStorage, seen through the one key \<open>HISTORY_KEY\<close>: the stored string (\<open>None\<close> is
  JavaScript's \<open>null\<close>, nothing stored), and whether the device lets each call through.
\<close>

record async_storage =
  item :: "jsstring option"
  getItem_rejects :: bool
  setItem_rejects :: bool
  removeItem_rejects :: bool

definition MAX_HISTORY_ENTRIES :: nat where
  "MAX_HISTORY_ENTRIES = 10"

definition getItem :: "async_storage \<Rightarrow> error + jsstring option" where
  "getItem st = (if getItem_rejects st then Inl StorageError else Inr (item st))"

definition setItem :: "async_storage \<Rightarrow> jsstring \<Rightarrow> error + async_storage" where
  "setItem st v = (if setItem_rejects st then Inl StorageError else Inr (st\<lparr>item := Some v\<rparr>))"

definition removeItem :: "async_storage \<Rightarrow> error + async_storage" where
  "removeItem st = (if removeItem_rejects st then Inl StorageError else Inr (st\<lparr>item := None\<rparr>))"

text \<open>The body of the \<open>try\<close> block of \<open>getHistory\<close>.\<close>

definition getHistory_try :: "js_runtime \<Rightarrow> async_storage \<Rightarrow> error + jsvalue list" where
  "getHistory_try rt st =
     (case getItem st of
        Inl e \<Rightarrow> Inl e
      | Inr None \<Rightarrow> Inr []
      | Inr (Some jsonValue) \<Rightarrow>
          (case JSON_parse rt jsonValue of
             None \<Rightarrow> Inl SyntaxError
           | Some parsed \<Rightarrow>
               (case parsed of JArr xs \<Rightarrow> Inr xs | _ \<Rightarrow> Inr [])))"

definition getHistory :: "js_runtime \<Rightarrow> async_storage \<Rightarrow> jsvalue list" where
  "getHistory rt st = (case getHistory_try rt st of Inl e \<Rightarrow> [] | Inr h \<Rightarrow> h)"

text \<open>
  The body of the \<open>try\<close> block of \<open>saveFlipToHistory\<close>; \<open>now\<close> is what \<open>Date.now()\<close>
  returns. \<open>side.trim()\<close> on a value that is not a string is a TypeError.
\<close>

definition history_entry :: "jsstring \<Rightarrow> int \<Rightarrow> jsvalue" where
  "history_entry s timestamp = JObj [(str ''side'', JStr s), (str ''timestamp'', JNum timestamp)]"

definition saveFlipToHistory_try ::
  "js_runtime \<Rightarrow> int \<Rightarrow> jsvalue \<Rightarrow> async_storage \<Rightarrow> error + bool \<times> async_storage" where
  "saveFlipToHistory_try rt now side st =
     (if \<not> truthy side \<or> typeof side \<noteq> ''string'' then Inr (False, st)
      else
        (case side of
           JStr s \<Rightarrow>
             (let entry = history_entry (trim s) now;
                  currentHistory = getHistory rt st;
                  updatedHistory = entry # currentHistory;
                  trimmedHistory = slice0 updatedHistory MAX_HISTORY_ENTRIES;
                  jsonValue = JSON_stringify rt (JArr trimmedHistory)
              in (case setItem st jsonValue of
                    Inl e \<Rightarrow> Inl e
                  | Inr st' \<Rightarrow> Inr (True, st')))
         | _ \<Rightarrow> Inl TypeError))"

definition saveFlipToHistory ::
  "js_runtime \<Rightarrow> int \<Rightarrow> jsvalue \<Rightarrow> async_storage \<Rightarrow> bool \<times> async_storage" where
  "saveFlipToHistory rt now side st =
     (case saveFlipToHistory_try rt now side st of Inl e \<Rightarrow> (False, st) | Inr r \<Rightarrow> r)"

definition clearHistory :: "async_storage \<Rightarrow> bool \<times> async_storage" where
  "clearHistory st = (case removeItem st of Inl e \<Rightarrow> (False, st) | Inr st' \<Rightarrow> (True, st'))"

section \<open>App: the flip coordinator\<close>

text \<open>
  \<open>render\<close> holds the \<open>useState\<close> values of one render of \<open>App\<close>. A handler is a
  closure of the render that created it: it reads these values as they were then, and
  reads the refs (and writes state through the setters) as they are now. So every handler
  below takes the render \<open>c\<close> it closes over and the current application state \<open>s\<close>; for
  a button of the current screen, \<open>c\<close> is \<open>s\<close> itself. \<open>side = None\<close> is \<open>null\<close>.
\<close>

record render =
  side :: "jsstring option"
  isFlipping :: bool
  isCustomMode :: bool
  customSideA :: jsstring
  customSideB :: jsstring

record app = render +
  flipInProgressRef :: bool
  shakeTimeoutRef :: "nat option"
  lastShakeTimeRef :: int
  lastFlickTimeRef :: int
  prevYRef :: real
  isMounted :: bool
  storage :: async_storage

text \<open>
  The statements of the \<open>try\<close> block of \<open>flipCoin\<close>, in source order:
  \<^item> \<open>SetRef\<close>: \<open>flipInProgressRef.current = true\<close>;
  \<^item> \<open>SetIsFlippingTrue\<close>: \<open>setIsFlipping(true)\<close>;
  \<^item> \<open>HapticImpact\<close>: the impact cue, in its own \<open>try\<close>/\<open>catch\<close>;
  \<^item> \<open>PreRoll\<close>: the wait of 100 ms;
  \<^item> \<open>DetermineResult\<close>: the draw of \<open>result\<close>;
  \<^item> \<open>AnimationWait\<close>: the wait of \<open>FLIP_ANIMATION_DURATION - 100\<close> ms;
  \<^item> \<open>SetSide\<close>, \<open>SetIsFlippingFalse\<close>, \<open>ClearRef\<close>: \<open>setSide(result)\<close>, \<open>setIsFlipping(false)\<close>,
    \<open>flipInProgressRef.current = false\<close>;
  \<^item> \<open>SaveHistory\<close>: the label and \<open>saveFlipToHistory\<close>, in their own \<open>try\<close>/\<open>catch\<close>;
  \<^item> \<open>HapticNotify\<close>: the success cue, in its own \<open>try\<close>/\<open>catch\<close>.

  The environment of a run says which statements raise (\<open>throws\<close>), what \<open>Math.random()\<close>
  and \<open>Date.now()\<close> return, and which JSON built-ins the runtime has. Waits take no part in
  the state.
\<close>

datatype flip_step =
    SetRef
  | SetIsFlippingTrue
  | HapticImpact
  | PreRoll
  | DetermineResult
  | AnimationWait
  | SetSide
  | SetIsFlippingFalse
  | ClearRef
  | SaveHistory
  | HapticNotify

record flip_env =
  runtime :: js_runtime
  random :: real
  date_now :: int
  throws :: "flip_step \<Rightarrow> bool"

text \<open>
  A statement either raises, leaving the state as it is, or has its effect. A block runs
  its statements until one raises; \<open>try_catch\<close> hands the exception and the state
  reached to the handler.
\<close>

definition stmt :: "flip_env \<Rightarrow> flip_step \<Rightarrow> (app \<Rightarrow> app) \<Rightarrow> app \<Rightarrow> error option \<times> app" where
  "stmt env p f s = (if throws env p then (Some UnexpectedError, s) else (None, f s))"

fun run_block :: "(app \<Rightarrow> error option \<times> app) list \<Rightarrow> app \<Rightarrow> error option \<times> app" where
  "run_block [] s = (None, s)"
| "run_block (f # fs) s =
     (case f s of
        (Some e, s') \<Rightarrow> (Some e, s')
      | (None, s') \<Rightarrow> run_block fs s')"

definition try_catch ::
  "(app \<Rightarrow> error option \<times> app) \<Rightarrow> (error \<Rightarrow> app \<Rightarrow> error option \<times> app) \<Rightarrow> app \<Rightarrow> error option \<times> app" where
  "try_catch body handler s =
     (case body s of
        (Some e, s') \<Rightarrow> handler e s'
      | (None, s') \<Rightarrow> (None, s'))"

text \<open>A handler that logs and goes on.\<close>

definition ignore :: "error \<Rightarrow> app \<Rightarrow> error option \<times> app" where
  "ignore e s = (None, s)"

text \<open>
  \<open>customSideA && customSideA.trim()\<close> is truthy when the label is not empty and its
  trimmed form is not empty.
\<close>

definition determine_result :: "real \<Rightarrow> 'a render_scheme \<Rightarrow> jsstring" where
  "determine_result r c =
     (if isCustomMode c then
        (let sideA = (if customSideA c \<noteq> [] \<and> trim (customSideA c) \<noteq> [] then str ''A'' else str ''A'');
             sideB = (if customSideB c \<noteq> [] \<and> trim (customSideB c) \<noteq> [] then str ''B'' else str ''B'')
         in if r < 0.5 then sideA else sideB)
      else if r < 0.5 then str ''Heads'' else str ''Tails'')"

definition historyLabel :: "'a render_scheme \<Rightarrow> jsstring \<Rightarrow> jsstring" where
  "historyLabel c result =
     (if result = str ''A'' \<and> customSideA c \<noteq> [] \<and> trim (customSideA c) \<noteq> [] then trim (customSideA c)
      else if result = str ''B'' \<and> customSideB c \<noteq> [] \<and> trim (customSideB c) \<noteq> [] then trim (customSideB c)
      else result)"

definition save_to_history :: "flip_env \<Rightarrow> jsstring \<Rightarrow> app \<Rightarrow> app" where
  "save_to_history env label s =
     s\<lparr>storage := snd (saveFlipToHistory (runtime env) (date_now env) (JStr label) (storage s))\<rparr>"

text \<open>The \<open>try\<close> block: its statements in source order, and what each one does.\<close>

definition flip_steps :: "flip_step list" where
  "flip_steps = [SetRef, SetIsFlippingTrue, HapticImpact, PreRoll, DetermineResult, AnimationWait,
     SetSide, SetIsFlippingFalse, ClearRef, SaveHistory, HapticNotify]"

fun flip_statement :: "flip_env \<Rightarrow> 'a render_scheme \<Rightarrow> flip_step \<Rightarrow> app \<Rightarrow> error option \<times> app" where
  "flip_statement env c SetRef = stmt env SetRef (\<lambda>s. s\<lparr>flipInProgressRef := True\<rparr>)"
| "flip_statement env c SetIsFlippingTrue = stmt env SetIsFlippingTrue (\<lambda>s. s\<lparr>isFlipping := True\<rparr>)"
| "flip_statement env c HapticImpact = try_catch (stmt env HapticImpact id) ignore"
| "flip_statement env c PreRoll = stmt env PreRoll id"
| "flip_statement env c DetermineResult = stmt env DetermineResult id"
| "flip_statement env c AnimationWait = stmt env AnimationWait id"
| "flip_statement env c SetSide =
     stmt env SetSide (\<lambda>s. s\<lparr>side := Some (determine_result (random env) c)\<rparr>)"
| "flip_statement env c SetIsFlippingFalse = stmt env SetIsFlippingFalse (\<lambda>s. s\<lparr>isFlipping := False\<rparr>)"
| "flip_statement env c ClearRef = stmt env ClearRef (\<lambda>s. s\<lparr>flipInProgressRef := False\<rparr>)"
| "flip_statement env c SaveHistory =
     try_catch (stmt env SaveHistory
       (save_to_history env (historyLabel c (determine_result (random env) c)))) ignore"
| "flip_statement env c HapticNotify = try_catch (stmt env HapticNotify id) ignore"

definition flipCoin_try :: "flip_env \<Rightarrow> 'a render_scheme \<Rightarrow> (app \<Rightarrow> error option \<times> app) list" where
  "flipCoin_try env c = map (flip_statement env c) flip_steps"

definition flipCoin_catch :: "error \<Rightarrow> app \<Rightarrow> error option \<times> app" where
  "flipCoin_catch e s = (None, s\<lparr>isFlipping := False, flipInProgressRef := False\<rparr>)"

definition flipCoin :: "flip_env \<Rightarrow> 'a render_scheme \<Rightarrow> app \<Rightarrow> error option \<times> app" where
  "flipCoin env c s =
     (if flipInProgressRef s \<or> isFlipping c then (None, s)
      else try_catch (run_block (flipCoin_try env c)) flipCoin_catch s)"

text \<open>
  \<open>resetResult\<close>: a rejection of the haptic promise is swallowed by \<open>.catch\<close>; if the
  call itself raises (\<open>haptics_throw\<close>), the \<open>try\<close> block is left before \<open>setSide(null)\<close>
  and the handler only logs.
\<close>

definition resetResult :: "bool \<Rightarrow> 'a render_scheme \<Rightarrow> app \<Rightarrow> app" where
  "resetResult haptics_throw c s =
     (if isFlipping c \<or> flipInProgressRef s then s
      else if haptics_throw then s
      else s\<lparr>side := None\<rparr>)"

definition toggleMode :: "'a render_scheme \<Rightarrow> app \<Rightarrow> app" where
  "toggleMode c s =
     (if isFlipping c \<or> flipInProgressRef s then s
      else s\<lparr>isCustomMode := \<not> isCustomMode c, side := None\<rparr>)"

definition handleCustomSideAChange :: "jsstring \<Rightarrow> app \<Rightarrow> app" where
  "handleCustomSideAChange text s = (let sanitized = substring0 text 150 in s\<lparr>customSideA := sanitized\<rparr>)"

definition handleCustomSideBChange :: "jsstring \<Rightarrow> app \<Rightarrow> app" where
  "handleCustomSideBChange text s = (let sanitized = substring0 text 150 in s\<lparr>customSideB := sanitized\<rparr>)"

text \<open>A sequence of edits of the two label inputs.\<close>

datatype label_edit = EditA jsstring | EditB jsstring

fun apply_edit :: "app \<Rightarrow> label_edit \<Rightarrow> app" where
  "apply_edit s (EditA text) = handleCustomSideAChange text s"
| "apply_edit s (EditB text) = handleCustomSideBChange text s"

definition getDisplayLabel :: "'a render_scheme \<Rightarrow> jsstring" where
  "getDisplayLabel c =
     (case side c of
        None \<Rightarrow> str ''Ready''
      | Some sd \<Rightarrow>
          if sd = [] then str ''Ready''
          else if sd = str ''A'' \<and> customSideA c \<noteq> [] \<and> trim (customSideA c) \<noteq> [] then trim (customSideA c)
          else if sd = str ''B'' \<and> customSideB c \<noteq> [] \<and> trim (customSideB c) \<noteq> [] then trim (customSideB c)
          else sd)"

section \<open>App: flips as interleaved sequences\<close>

text \<open>
  \<open>flipCoin\<close> is an \<open>async\<close> function: a call runs up to its first \<open>await\<close> (the guard and
  the two statements that take it) and is resumed later, other handlers running in
  between. An activation is a call that has started, with the environment and the render it
  closes over and the index \<open>pc\<close> of its next statement in \<open>flip_steps\<close>. Resuming runs one
  statement; a JavaScript turn is one or more resumptions of the same activation in a
  row. An activation holds the guard until it has run \<open>ClearRef\<close> (index 8) or has been
  through the \<open>catch\<close> block.
\<close>

record activation =
  act_env :: flip_env
  act_closure :: render
  pc :: nat

type_synonym world = "app \<times> activation list"

definition flipCoin_call :: "flip_env \<Rightarrow> render \<Rightarrow> world \<Rightarrow> world" where
  "flipCoin_call env c w =
     (case w of (s, acts) \<Rightarrow>
        if flipInProgressRef s \<or> isFlipping c then w
        else
          (case run_block (map (flip_statement env c) (take 2 flip_steps)) s of
             (Some e, s') \<Rightarrow> (snd (flipCoin_catch e s'), acts)
           | (None, s') \<Rightarrow> (s', acts @ [\<lparr>act_env = env, act_closure = c, pc = 2\<rparr>])))"

definition flipCoin_resume :: "nat \<Rightarrow> world \<Rightarrow> world" where
  "flipCoin_resume i w =
     (case w of (s, acts) \<Rightarrow>
        if i < length acts \<and> pc (acts ! i) < length flip_steps then
          (let a = acts ! i in
           case flip_statement (act_env a) (act_closure a) (flip_steps ! pc a) s of
             (Some e, s') \<Rightarrow> (snd (flipCoin_catch e s'), acts[i := a\<lparr>pc := length flip_steps\<rparr>])
           | (None, s') \<Rightarrow> (s', acts[i := a\<lparr>pc := Suc (pc a)\<rparr>]))
        else w)"

datatype event =
    Press flip_env render
  | Resume nat
  | Reset bool render
  | Toggle render
  | Edit label_edit

fun occur :: "world \<Rightarrow> event \<Rightarrow> world" where
  "occur w (Press env c) = flipCoin_call env c w"
| "occur w (Resume i) = flipCoin_resume i w"
| "occur (s, acts) (Reset h c) = (resetResult h c s, acts)"
| "occur (s, acts) (Toggle c) = (toggleMode c s, acts)"
| "occur (s, acts) (Edit e) = (apply_edit s e, acts)"

definition holds_guard :: "activation \<Rightarrow> bool" where
  "holds_guard a \<longleftrightarrow> pc a \<le> 8"

definition in_progress :: "world \<Rightarrow> nat" where
  "in_progress w = length (filter holds_guard (snd w))"

definition guard_inv :: "world \<Rightarrow> bool" where
  "guard_inv w \<longleftrightarrow>
     in_progress w = (if flipInProgressRef (fst w) then 1 else 0) \<and> list_all (\<lambda>a. 2 \<le> pc a) (snd w)"

section \<open>App: the accelerometer listener\<close>

text \<open>
  One call of the listener on a sample \<open>{x, y, z}\<close> at time \<open>now\<close>. A component is
  \<open>None\<close> when its \<open>typeof\<close> is not \<open>number\<close>; numbers are taken as reals. The listener's
  own effects are on the refs; what it asks of the rest of the program is returned as the
  list of calls it makes, in order. \<open>fresh\<close> is the handle \<open>setTimeout\<close> returns.
\<close>

datatype call = FlipCoin | ClearTimeout nat | SetTimeout_resetResult nat nat

definition accelerometerListener ::
  "int \<Rightarrow> nat \<Rightarrow> real option \<times> real option \<times> real option \<Rightarrow> app \<Rightarrow> call list \<times> app" where
  "accelerometerListener now fresh sample s =
     (case sample of
        (Some x, Some y, Some z) \<Rightarrow>
          (let yDelta = y - prevYRef s;
               s1 = s\<lparr>prevYRef := y\<rparr>
           in if yDelta > 0.8 \<and> now - lastFlickTimeRef s1 > 4000 \<and> \<not> flipInProgressRef s1 then
                (let s2 = s1\<lparr>lastFlickTimeRef := now\<rparr>
                 in (if isMounted s2 then [FlipCoin] else [], s2))
              else
                (let acceleration = sqrt (x * x + y * y + z * z);
                     threshold = 1.5
                 in if acceleration > threshold \<and> now - lastShakeTimeRef s1 > 1000 then
                      (let s2 = s1\<lparr>lastShakeTimeRef := now\<rparr>;
                           cleared = (case shakeTimeoutRef s2 of Some h \<Rightarrow> [ClearTimeout h] | None \<Rightarrow> [])
                       in (cleared @ [SetTimeout_resetResult fresh 100], s2\<lparr>shakeTimeoutRef := Some fresh\<rparr>))
                    else ([], s1)))
      | _ \<Rightarrow> ([], s))"

text \<open>
  The listener is created by the effect whose dependency list is empty, which runs once,
  after the first render. The \<open>flipCoin\<close> and \<open>resetResult\<close> it calls are therefore those of
  the first render: they close over the initial \<open>useState\<close> values, whatever the state has
  become since.
\<close>

definition mount_render :: render where
  "mount_render =
     \<lparr>side = None, isFlipping = False, isCustomMode = False, customSideA = [], customSideB = []\<rparr>"

definition listener_flipCoin :: "flip_env \<Rightarrow> app \<Rightarrow> error option \<times> app" where
  "listener_flipCoin env s = flipCoin env mount_render s"

definition listener_resetResult :: "bool \<Rightarrow> app \<Rightarrow> app" where
  "listener_resetResult haptics_throw s = resetResult haptics_throw mount_render s"

text \<open>The state of a freshly mounted \<open>App\<close> over a given storage.\<close>

definition initial_app :: "async_storage \<Rightarrow> app" where
  "initial_app st =
     \<lparr>side = None, isFlipping = False, isCustomMode = False, customSideA = [], customSideB = [],
      flipInProgressRef = False, shakeTimeoutRef = None, lastShakeTimeRef = 0, lastFlickTimeRef = 0,
      prevYRef = 0, isMounted = True, storage = st\<rparr>"

definition empty_storage :: async_storage where
  "empty_storage = \<lparr>item = None, getItem_rejects = False, setItem_rejects = False, removeItem_rejects = False\<rparr>"

section \<open>A reference JSON runtime\<close>

text \<open>
  A writer and a reader for JSON texts whose numbers are integer literals, used as the
  runtime in the worked examples. The reader works with fuel (one unit per nesting level
  or element; the length of the text is always enough) and fails on anything else.
\<close>

definition is_digit :: "code_unit \<Rightarrow> bool" where
  "is_digit c \<longleftrightarrow> 0x30 \<le> c \<and> c \<le> 0x39"

fun digits_of :: "nat \<Rightarrow> jsstring" where
  "digits_of n =
     (if n < 10 then [0x30 + of_nat n] else digits_of (n div 10) @ [0x30 + of_nat (n mod 10)])"

declare digits_of.simps [simp del]

definition number_text :: "int \<Rightarrow> jsstring" where
  "number_text i = (if i < 0 then 0x2D # digits_of (nat (- i)) else digits_of (nat i))"

definition hex_digit :: "nat \<Rightarrow> code_unit" where
  "hex_digit d = (if d < 10 then 0x30 + of_nat d else 0x57 + of_nat d)"

definition escape_unit :: "code_unit \<Rightarrow> jsstring" where
  "escape_unit c =
     (if c = 0x22 then [0x5C, 0x22]
      else if c = 0x5C then [0x5C, 0x5C]
      else if c = 0x8 then [0x5C, 0x62]
      else if c = 0xC then [0x5C, 0x66]
      else if c = 0xA then [0x5C, 0x6E]
      else if c = 0xD then [0x5C, 0x72]
      else if c = 0x9 then [0x5C, 0x74]
      else if c < 0x20 then [0x5C, 0x75, 0x30, 0x30, hex_digit (unat c div 16), hex_digit (unat c mod 16)]
      else [c])"

definition string_text :: "jsstring \<Rightarrow> jsstring" where
  "string_text s = 0x22 # concat (map escape_unit s) @ [0x22]"

fun commas :: "jsstring list \<Rightarrow> jsstring" where
  "commas [] = []"
| "commas [x] = x"
| "commas (x # y # ys) = x @ 0x2C # commas (y # ys)"

fun json_text :: "jsvalue \<Rightarrow> jsstring" where
  "json_text JUndefined = str ''null''"
| "json_text JNull = str ''null''"
| "json_text (JBool b) = (if b then str ''true'' else str ''false'')"
| "json_text (JNum i) = number_text i"
| "json_text (JStr s) = string_text s"
| "json_text (JArr xs) = 0x5B # commas (map json_text xs) @ [0x5D]"
| "json_text (JObj fs) =
     0x7B # commas (map (\<lambda>(k, v). string_text k @ 0x3A # json_text v) fs) @ [0x7D]"

definition is_json_space :: "code_unit \<Rightarrow> bool" where
  "is_json_space c \<longleftrightarrow> c = 0x20 \<or> c = 0x9 \<or> c = 0xA \<or> c = 0xD"

fun strip_prefix :: "jsstring \<Rightarrow> jsstring \<Rightarrow> jsstring option" where
  "strip_prefix [] s = Some s"
| "strip_prefix (p # ps) [] = None"
| "strip_prefix (p # ps) (c # cs) = (if p = c then strip_prefix ps cs else None)"

fun read_digits :: "nat \<Rightarrow> jsstring \<Rightarrow> nat \<times> jsstring" where
  "read_digits acc [] = (acc, [])"
| "read_digits acc (c # cs) =
     (if is_digit c then read_digits (10 * acc + unat (c - 0x30)) cs else (acc, c # cs))"

text \<open>An integer literal: no leading zero, no fraction, no exponent.\<close>

definition read_nat :: "jsstring \<Rightarrow> (nat \<times> jsstring) option" where
  "read_nat s =
     (case s of
        [] \<Rightarrow> None
      | c # cs \<Rightarrow>
          if \<not> is_digit c then None
          else if c = 0x30 \<and> (case cs of [] \<Rightarrow> False | d # ds \<Rightarrow> is_digit d) then None
          else (case read_digits 0 s of
                  (n, r) \<Rightarrow>
                    (case r of
                       [] \<Rightarrow> Some (n, r)
                     | d # ds \<Rightarrow> if d = 0x2E \<or> d = 0x65 \<or> d = 0x45 then None else Some (n, r))))"

definition read_number :: "jsstring \<Rightarrow> (jsvalue \<times> jsstring) option" where
  "read_number s =
     (case s of
        [] \<Rightarrow> None
      | c # cs \<Rightarrow>
          if c = 0x2D then map_option (\<lambda>(n, r). (JNum (- int n), r)) (read_nat cs)
          else map_option (\<lambda>(n, r). (JNum (int n), r)) (read_nat s))"

definition hex_value :: "code_unit \<Rightarrow> nat option" where
  "hex_value c =
     (if 0x30 \<le> c \<and> c \<le> 0x39 then Some (unat c - 0x30)
      else if 0x61 \<le> c \<and> c \<le> 0x66 then Some (unat c - 0x57)
      else if 0x41 \<le> c \<and> c \<le> 0x46 then Some (unat c - 0x37)
      else None)"

text \<open>The characters of a string literal, after its opening quote, up to the closing one.\<close>

fun read_chars :: "jsstring \<Rightarrow> (jsstring \<times> jsstring) option" where
  "read_chars [] = None"
| "read_chars (c # cs) =
     (if c = 0x22 then Some ([], cs)
      else if c < 0x20 then None
      else if c = 0x5C then
        (case cs of
           [] \<Rightarrow> None
         | e # es \<Rightarrow>
             if e = 0x75 then
               (case es of
                  h1 # h2 # h3 # h4 # r \<Rightarrow>
                    (case (hex_value h1, hex_value h2, hex_value h3, hex_value h4) of
                       (Some a, Some b, Some c', Some d) \<Rightarrow>
                         map_option (apfst ((#) (of_nat (((a * 16 + b) * 16 + c') * 16 + d)))) (read_chars r)
                     | _ \<Rightarrow> None)
                | _ \<Rightarrow> None)
             else
               (case (if e = 0x22 then Some 0x22 else if e = 0x5C then Some 0x5C
                      else if e = 0x2F then Some 0x2F else if e = 0x62 then Some 0x8
                      else if e = 0x66 then Some 0xC else if e = 0x6E then Some 0xA
                      else if e = 0x72 then Some 0xD else if e = 0x74 then Some 0x9
                      else None) of
                  None \<Rightarrow> None
                | Some u \<Rightarrow> map_option (apfst ((#) u)) (read_chars es)))
      else map_option (apfst ((#) c)) (read_chars cs))"

fun read_value :: "nat \<Rightarrow> jsstring \<Rightarrow> (jsvalue \<times> jsstring) option"
  and read_elements :: "nat \<Rightarrow> jsstring \<Rightarrow> (jsvalue list \<times> jsstring) option"
  and read_members :: "nat \<Rightarrow> jsstring \<Rightarrow> ((jsstring \<times> jsvalue) list \<times> jsstring) option"
where
  "read_value 0 s = None"
| "read_value (Suc n) s =
     (case dropWhile is_json_space s of
        [] \<Rightarrow> None
      | c # cs \<Rightarrow>
          if c = 0x5B then
            (case dropWhile is_json_space cs of
               [] \<Rightarrow> None
             | d # ds \<Rightarrow>
                 if d = 0x5D then Some (JArr [], ds)
                 else map_option (apfst JArr) (read_elements n cs))
          else if c = 0x7B then
            (case dropWhile is_json_space cs of
               [] \<Rightarrow> None
             | d # ds \<Rightarrow>
                 if d = 0x7D then Some (JObj [], ds)
                 else map_option (apfst JObj) (read_members n cs))
          else if c = 0x22 then map_option (apfst JStr) (read_chars cs)
          else if c = 0x6E then map_option (Pair JNull) (strip_prefix (str ''ull'') cs)
          else if c = 0x74 then map_option (Pair (JBool True)) (strip_prefix (str ''rue'') cs)
          else if c = 0x66 then map_option (Pair (JBool False)) (strip_prefix (str ''alse'') cs)
          else read_number (c # cs))"
| "read_elements 0 s = None"
| "read_elements (Suc n) s =
     (case read_value n s of
        None \<Rightarrow> None
      | Some (v, r) \<Rightarrow>
          (case dropWhile is_json_space r of
             [] \<Rightarrow> None
           | c # cs \<Rightarrow>
               if c = 0x5D then Some ([v], cs)
               else if c = 0x2C then map_option (apfst ((#) v)) (read_elements n cs)
               else None))"
| "read_members 0 s = None"
| "read_members (Suc n) s =
     (case dropWhile is_json_space s of
        [] \<Rightarrow> None
      | q # qs \<Rightarrow>
          if q \<noteq> 0x22 then None
          else
            (case read_chars qs of
               None \<Rightarrow> None
             | Some (k, r) \<Rightarrow>
                 (case dropWhile is_json_space r of
                    [] \<Rightarrow> None
                  | c # cs \<Rightarrow>
                      if c \<noteq> 0x3A then None
                      else
                        (case read_value n cs of
                           None \<Rightarrow> None
                         | Some (v, r') \<Rightarrow>
                             (case dropWhile is_json_space r' of
                                [] \<Rightarrow> None
                              | d # ds \<Rightarrow>
                                  if d = 0x7D then Some ([(k, v)], ds)
                                  else if d = 0x2C then map_option (apfst ((#) (k, v))) (read_members n ds)
                                  else None)))))"

definition json_read :: "jsstring \<Rightarrow> jsvalue option" where
  "json_read s =
     (case read_value (Suc (length s)) s of
        None \<Rightarrow> None
      | Some (v, r) \<Rightarrow> if dropWhile is_json_space r = [] then Some v else None)"

definition reference_runtime :: js_runtime where
  "reference_runtime = \<lparr>JSON_parse = json_read, JSON_stringify = json_text\<rparr>"

text \<open>
  For the correctness of the reference runtime: the values that have a JSON text, the fuel
  that reading a value back needs, what may follow a number, and what a value's text can
  start with.
\<close>

fun json_ok :: "jsvalue \<Rightarrow> bool" where
  "json_ok JUndefined = False"
| "json_ok (JArr xs) = list_all json_ok xs"
| "json_ok (JObj fs) = list_all (\<lambda>p. json_ok (snd p)) fs"
| "json_ok v = True"

fun fuel :: "jsvalue \<Rightarrow> nat" where
  "fuel (JArr xs) = Suc (sum_list (map (\<lambda>x. Suc (fuel x)) xs))"
| "fuel (JObj fs) = Suc (sum_list (map (\<lambda>p. Suc (fuel (snd p))) fs))"
| "fuel v = 1"

definition member_text :: "jsstring \<times> jsvalue \<Rightarrow> jsstring" where
  "member_text p = string_text (fst p) @ 0x3A # json_text (snd p)"

definition ends_number :: "jsstring \<Rightarrow> bool" where
  "ends_number r \<longleftrightarrow>
     (case r of [] \<Rightarrow> True | d # ds \<Rightarrow> \<not> is_digit d \<and> d \<noteq> 0x2E \<and> d \<noteq> 0x65 \<and> d \<noteq> 0x45)"

text \<open>What the first unit of a value's text can be.\<close>

definition value_start :: "code_unit \<Rightarrow> bool" where
  "value_start c \<longleftrightarrow> \<not> is_json_space c \<and> c \<noteq> 0x5D \<and> c \<noteq> 0x7D"

definition reads_back :: "jsvalue \<Rightarrow> bool" where
  "reads_back v \<longleftrightarrow>
     (\<forall>n r. fuel v \<le> n \<longrightarrow> ends_number r \<longrightarrow> read_value n (json_text v @ r) = Some (v, r))"

section \<open>Vocabulary of the properties\<close>

text \<open>
  A history entry as \<open>renderHistoryItem\<close> reads it: an object whose \<open>side\<close> is a string and
  whose \<open>timestamp\<close> is a number.
\<close>

definition is_history_entry :: "jsvalue \<Rightarrow> bool" where
  "is_history_entry v \<longleftrightarrow>
     (case v of JObj fs \<Rightarrow> True | _ \<Rightarrow> False) \<and>
     typeof (getProp v (str ''side'')) = ''string'' \<and>
     typeof (getProp v (str ''timestamp'')) = ''number''"

text \<open>A slot that already holds one flip.\<close>

definition stored_example :: async_storage where
  "stored_example =
     empty_storage\<lparr>item := Some (json_text (JArr [history_entry (str ''Heads'') 1700000000000]))\<rparr>"

text \<open>
  A sequence of appends, each with the label passed to \<open>saveFlipToHistory\<close> and the time of
  the call; the entry each one makes; the log expected after them; and what is asked of
  the runtime: that it reads back each log that these appends write.
\<close>

fun append_all :: "js_runtime \<Rightarrow> (jsstring \<times> int) list \<Rightarrow> async_storage \<Rightarrow> async_storage" where
  "append_all rt [] st = st"
| "append_all rt ((label, t) # es) st =
     append_all rt es (snd (saveFlipToHistory rt t (JStr label) st))"

definition entry_of :: "jsstring \<times> int \<Rightarrow> jsvalue" where
  "entry_of e = history_entry (trim (fst e)) (snd e)"

definition round_trips :: "js_runtime \<Rightarrow> jsvalue \<Rightarrow> bool" where
  "round_trips rt v \<longleftrightarrow> JSON_parse rt (JSON_stringify rt v) = Some v"

definition log_after :: "jsvalue list \<Rightarrow> (jsstring \<times> int) list \<Rightarrow> jsvalue list" where
  "log_after h es = take 10 (rev (map entry_of es) @ h)"

definition logs_round_trip :: "js_runtime \<Rightarrow> jsvalue list \<Rightarrow> (jsstring \<times> int) list \<Rightarrow> bool" where
  "logs_round_trip rt h es \<longleftrightarrow>
     list_all (\<lambda>k. round_trips rt (JArr (log_after h (take k es)))) [1..<Suc (length es)]"

definition twelve_entries :: "(jsstring \<times> int) list" where
  "twelve_entries =
     [(str ''E1'', 1700000003200), (str ''E2'', 1700000006400), (str ''E3'', 1700000009600),
      (str ''E4'', 1700000012800), (str ''E5'', 1700000016000), (str ''E6'', 1700000019200),
      (str ''E7'', 1700000022400), (str ''E8'', 1700000025600), (str ''E9'', 1700000028800),
      (str ''E10'', 1700000032000), (str ''E11'', 1700000035200), (str ''E12'', 1700000038400)]"

text \<open>
  The label of a side as the specification words it: the custom label, trimmed, if that is
  not empty, else the canonical name.
\<close>

definition resolved_label :: "jsstring \<Rightarrow> jsstring \<Rightarrow> jsstring" where
  "resolved_label custom canonical = (if trim custom \<noteq> [] then trim custom else canonical)"

text \<open>States, renders and environments of the worked examples.\<close>

definition pizza_app :: app where
  "pizza_app =
     (initial_app empty_storage)\<lparr>isCustomMode := True, customSideA := str ''Pizza'', customSideB := []\<rparr>"

definition heads_app :: app where
  "heads_app = (initial_app empty_storage)\<lparr>side := Some (str ''Heads'')\<rparr>"

definition busy_app :: app where
  "busy_app = (initial_app empty_storage)\<lparr>isFlipping := True, flipInProgressRef := True\<rparr>"

definition calm_env :: "real \<Rightarrow> flip_env" where
  "calm_env r =
     \<lparr>runtime = reference_runtime, random = r, date_now = 1700000003200, throws = (\<lambda>p. False)\<rparr>"

definition fault_env :: "flip_step \<Rightarrow> real \<Rightarrow> flip_env" where
  "fault_env p r =
     \<lparr>runtime = reference_runtime, random = r, date_now = 1700000003200, throws = (\<lambda>q. q = p)\<rparr>"

section \<open>Properties\<close>

subsection \<open>Evaluation and strings\<close>

lemmas reference_eval =
  reference_runtime_def json_read_def read_number_def read_nat_def is_digit_def is_json_space_def
  hex_value_def digits_of.simps number_text_def string_text_def escape_unit_def hex_digit_def
  history_entry_def str_def

lemma reference_runtime_sel:
  "JSON_parse reference_runtime = json_read" "JSON_stringify reference_runtime = json_text"
  by (simp_all add: reference_runtime_def)

lemma str_nonempty: "str (c # cs) \<noteq> []"
  by (simp add: str_def)

lemma example_flags:
  "\<not> setItem_rejects stored_example" "\<not> getItem_rejects stored_example"
  "\<not> setItem_rejects empty_storage" "\<not> getItem_rejects empty_storage"
  "\<not> setItem_rejects (empty_storage\<lparr>item := x\<rparr>)" "\<not> getItem_rejects (empty_storage\<lparr>item := x\<rparr>)"
  by (simp_all add: stored_example_def empty_storage_def)

lemma trim_Tails: "trim (str ''Tails'') = str ''Tails''"
  by (simp add: trim_def str_def isWhiteSpace_def)

lemma dropWhile_keeps: "xs = [] \<or> \<not> P (hd xs) \<Longrightarrow> dropWhile P xs = xs"
  by (cases xs) auto

lemma last_dropWhile: "dropWhile P xs \<noteq> [] \<Longrightarrow> last (dropWhile P xs) = last xs"
proof -
  assume ne: "dropWhile P xs \<noteq> []"
  have "last xs = last (takeWhile P xs @ dropWhile P xs)" by simp
  also have "\<dots> = last (dropWhile P xs)" using ne by (simp only: last_append if_False)
  finally show ?thesis by simp
qed

lemma trim_trim: "trim (trim s) = trim s"
proof -
  let ?P = isWhiteSpace
  let ?t = "dropWhile ?P s"
  let ?u = "dropWhile ?P (rev ?t)"
  have u: "dropWhile ?P ?u = ?u" by simp
  have "rev ?u = [] \<or> \<not> ?P (hd (rev ?u))"
  proof (cases "?u = []")
    case True
    then show ?thesis by simp
  next
    case False
    then have "last ?u = last (rev ?t)" by (rule last_dropWhile)
    moreover have t: "?t \<noteq> []"
    proof
      assume "?t = []"
      then have "?u = []" by (simp only: rev.simps dropWhile.simps)
      with False show False by contradiction
    qed
    ultimately have "hd (rev ?u) = hd ?t" using False by (simp add: hd_rev last_rev)
    moreover have "\<not> ?P (hd ?t)" using t by (rule hd_dropWhile)
    ultimately show ?thesis by simp
  qed
  then have "dropWhile ?P (rev ?u) = rev ?u" by (rule dropWhile_keeps)
  then show ?thesis by (simp add: trim_def)
qed

lemma trim_Nil: "trim [] = []"
  by (simp add: trim_def)

lemma trim_A_B: "trim (str ''A'') = str ''A''" "trim (str ''B'') = str ''B''"
  by (simp_all add: trim_def str_def isWhiteSpace_def)

lemma str_neq: "str ''A'' \<noteq> str ''B''" "str ''B'' \<noteq> str ''A''" "str ''A'' \<noteq> []" "str ''B'' \<noteq> []"
  by (simp_all add: str_def)

subsection \<open>The reference runtime reads back what it writes\<close>

lemma digits_of_small: "n < 10 \<Longrightarrow> digits_of n = [0x30 + of_nat n]"
  by (subst digits_of.simps) simp

lemma digits_of_large: "\<not> n < 10 \<Longrightarrow> digits_of n = digits_of (n div 10) @ [0x30 + of_nat (n mod 10)]"
  by (subst digits_of.simps) simp

lemma digit_unit:
  assumes "d < 10"
  shows "is_digit (0x30 + of_nat d :: code_unit)" and "unat (of_nat d :: code_unit) = d"
    and "(of_nat d :: code_unit) = 0 \<longleftrightarrow> d = 0"
proof -
  from assms have "d \<in> {0, 1, 2, 3, 4, 5, 6, 7, 8, 9}" by auto
  then show "is_digit (0x30 + of_nat d :: code_unit)"
    and "unat (of_nat d :: code_unit) = d"
    and "(of_nat d :: code_unit) = 0 \<longleftrightarrow> d = 0"
    by (auto simp: is_digit_def)
qed

lemma digits_of_nonempty: "digits_of n \<noteq> []"
  by (cases "n < 10") (simp_all add: digits_of_small digits_of_large)

lemma read_digits_digits_of:
  "read_digits acc (digits_of n @ r) = read_digits (acc * 10 ^ length (digits_of n) + n) r"
proof (induction n arbitrary: acc r rule: digits_of.induct)
  case (1 n)
  show ?case
  proof (cases "n < 10")
    case True
    then show ?thesis by (simp add: digits_of_small digit_unit mult.commute)
  next
    case False
    have "read_digits acc (digits_of n @ r) =
          read_digits acc (digits_of (n div 10) @ (0x30 + of_nat (n mod 10)) # r)"
      by (simp add: digits_of_large [OF False])
    also have "\<dots> = read_digits (acc * 10 ^ length (digits_of (n div 10)) + n div 10)
                        ((0x30 + of_nat (n mod 10)) # r)"
      by (rule "1.IH" [OF False])
    also have "\<dots> = read_digits (10 * (acc * 10 ^ length (digits_of (n div 10)) + n div 10) + n mod 10) r"
      by (simp add: digit_unit)
    also have "10 * (acc * 10 ^ length (digits_of (n div 10)) + n div 10) + n mod 10 =
               acc * 10 ^ length (digits_of n) + n"
      by (simp add: digits_of_large [OF False] algebra_simps)
    finally show ?thesis .
  qed
qed

lemma hd_digits_of: "0 < n \<Longrightarrow> hd (digits_of n) \<noteq> 0x30"
proof (induction n rule: digits_of.induct)
  case (1 n)
  show ?case
  proof (cases "n < 10")
    case True
    with "1.prems" show ?thesis by (simp add: digits_of_small digit_unit)
  next
    case False
    then have "0 < n div 10" by simp
    from "1.IH" [OF False this] show ?thesis
      by (simp add: digits_of_large [OF False] digits_of_nonempty)
  qed
qed

lemma hd_digits_of_is_digit: "is_digit (hd (digits_of n))"
proof (induction n rule: digits_of.induct)
  case (1 n)
  show ?case
  proof (cases "n < 10")
    case True
    then show ?thesis by (simp add: digits_of_small digit_unit)
  next
    case False
    from "1.IH" [OF False] show ?thesis
      by (simp add: digits_of_large [OF False] digits_of_nonempty)
  qed
qed

lemma read_digits_stop: "ends_number r \<Longrightarrow> read_digits acc r = (acc, r)"
  by (cases r) (simp_all add: ends_number_def)

lemma read_nat_digits_of:
  assumes "ends_number r"
  shows "read_nat (digits_of n @ r) = Some (n, r)"
proof -
  obtain c cs where ds: "digits_of n = c # cs"
    using digits_of_nonempty [of n] by (cases "digits_of n") auto
  have c: "is_digit c" using hd_digits_of_is_digit [of n] by (simp add: ds)
  have lead: "\<not> (c = 0x30 \<and> (case cs @ r of [] \<Rightarrow> False | d # ds \<Rightarrow> is_digit d))"
  proof (cases "n < 10")
    case True
    then have "cs = []" using ds by (simp add: digits_of_small)
    then show ?thesis using assms by (cases r) (simp_all add: ends_number_def)
  next
    case False
    then have "0 < n" by simp
    from hd_digits_of [OF this] show ?thesis by (simp add: ds)
  qed
  have rd: "read_digits 0 (c # cs @ r) = (n, r)"
    using read_digits_digits_of [of 0 n r] read_digits_stop [OF assms] by (simp add: ds)
  have "read_nat (c # cs @ r) = Some (n, r)"
    unfolding read_nat_def using c lead rd assms
    by (cases r) (simp_all add: ends_number_def)
  then show ?thesis by (simp add: ds)
qed

lemma read_number_number_text:
  assumes "ends_number r"
  shows "read_number (number_text i @ r) = Some (JNum i, r)"
proof (cases "i < 0")
  case True
  then show ?thesis
    by (simp add: read_number_def number_text_def read_nat_digits_of [OF assms])
next
  case False
  obtain c cs where ds: "digits_of (nat i) = c # cs"
    using digits_of_nonempty [of "nat i"] by (cases "digits_of (nat i)") auto
  have "is_digit c" using hd_digits_of_is_digit [of "nat i"] by (simp add: ds)
  then have "c \<noteq> 0x2D" by (auto simp: is_digit_def)
  moreover have "read_nat (c # cs @ r) = Some (nat i, r)"
    using read_nat_digits_of [OF assms, of "nat i"] by (simp add: ds)
  ultimately show ?thesis using False
    by (simp add: read_number_def number_text_def ds)
qed

lemma upto_16: "[0..<16] = [0, 1, 2, 3, 4, 5, 6, 7, 8, 9, 10, 11, 12, 13, 14, 15 :: nat]"
  by (simp add: upt_rec)

lemma hex_value_hex_digit:
  assumes "d < 16"
  shows "hex_value (hex_digit d) = Some d"
proof -
  have ev: "\<forall>k \<in> set [0, 1, 2, 3, 4, 5, 6, 7, 8, 9, 10, 11, 12, 13, 14, 15 :: nat]. hex_value (hex_digit k) = Some k"
    by (simp add: hex_value_def hex_digit_def)
  from assms have "d \<in> set [0..<16]"
    by (simp only: set_upt atLeastLessThan_iff) simp
  then have "d \<in> set [0, 1, 2, 3, 4, 5, 6, 7, 8, 9, 10, 11, 12, 13, 14, 15 :: nat]"
    by (simp only: upto_16)
  with ev show ?thesis by blast
qed

lemma hex_value_zero: "hex_value 0x30 = Some 0"
  by (simp add: hex_value_def)

lemma read_chars_control:
  assumes "c < 0x20"
  shows "read_chars (0x5C # 0x75 # 0x30 # 0x30 # hex_digit (unat c div 16) # hex_digit (unat c mod 16) # rest) =
         map_option (apfst ((#) c)) (read_chars rest)"
proof -
  from assms have u: "unat c < 32" by (simp add: word_less_nat_alt)
  then have a: "unat c div 16 < 16" and b: "unat c mod 16 < 16" by simp_all
  have "(of_nat (unat c div 16 * 16 + unat c mod 16) :: code_unit) = of_nat (unat c)"
    by simp
  then have same: "(of_nat (unat c div 16 * 16 + unat c mod 16) :: code_unit) = c"
    by simp
  show ?thesis
    by (simp add: hex_value_zero hex_value_hex_digit [OF a] hex_value_hex_digit [OF b] same
        del: of_nat_add of_nat_mult)
qed

lemma read_chars_escape_unit:
  "read_chars (escape_unit c @ rest) = map_option (apfst ((#) c)) (read_chars rest)"
proof -
  consider "c = 0x22" | "c = 0x5C" | "c = 0x8" | "c = 0xC" | "c = 0xA" | "c = 0xD" | "c = 0x9"
    | "c < 0x20" "c \<noteq> 0x8" "c \<noteq> 0xC" "c \<noteq> 0xA" "c \<noteq> 0xD" "c \<noteq> 0x9"
    | "\<not> c < 0x20" "c \<noteq> 0x22" "c \<noteq> 0x5C"
    by blast
  then show ?thesis
  proof cases
    case 8
    then have e: "escape_unit c = [0x5C, 0x75, 0x30, 0x30, hex_digit (unat c div 16), hex_digit (unat c mod 16)]"
      by (auto simp: escape_unit_def)
    show ?thesis unfolding e using read_chars_control [OF 8(1)] by simp
  next
    case 9
    then have e: "escape_unit c = [c]"
      by (auto simp: escape_unit_def)
    show ?thesis unfolding e using 9 by simp
  qed (simp_all add: escape_unit_def)
qed

lemma read_chars_string_body:
  "read_chars (concat (map escape_unit s) @ 0x22 # r) = Some (s, r)"
  by (induction s) (simp_all add: read_chars_escape_unit del: read_chars.simps, simp)

lemma json_text_JObj: "json_text (JObj fs) = 0x7B # commas (map member_text fs) @ [0x7D]"
proof -
  have "(\<lambda>(k, v). string_text k @ 0x3A # json_text v) = member_text"
    by (auto simp: member_text_def fun_eq_iff)
  then show ?thesis by simp
qed

lemma skip_nonspace: "\<not> is_json_space c \<Longrightarrow> dropWhile is_json_space (c # cs) = c # cs"
  by simp

lemma separators:
  "\<not> is_json_space 0x2C" "\<not> is_json_space 0x5D" "\<not> is_json_space 0x7D" "\<not> is_json_space 0x3A"
  "\<not> is_json_space 0x22"
  "ends_number (0x2C # r)" "ends_number (0x5D # r)" "ends_number (0x7D # r)" "ends_number []"
  by (simp_all add: is_json_space_def ends_number_def is_digit_def)

lemma digit_start: "is_digit c \<Longrightarrow> value_start c"
  by (auto simp: value_start_def is_digit_def is_json_space_def)

lemma json_text_start:
  assumes "json_ok v"
  shows "\<exists>c cs. json_text v = c # cs \<and> value_start c"
proof (cases v)
  case JUndefined
  with assms show ?thesis by simp
next
  case JNull
  then show ?thesis by (simp add: str_def value_start_def is_json_space_def)
next
  case (JBool b)
  then show ?thesis by (simp add: str_def value_start_def is_json_space_def)
next
  case (JNum i)
  have start: "\<exists>c cs. digits_of n = c # cs \<and> value_start c" for n
  proof -
    obtain d ds where ds: "digits_of n = d # ds"
      using digits_of_nonempty [of n] by (cases "digits_of n") auto
    have "is_digit d" using hd_digits_of_is_digit [of n] by (simp add: ds)
    then have "value_start d" by (rule digit_start)
    with ds show ?thesis by blast
  qed
  show ?thesis
  proof (cases "i < 0")
    case True
    then show ?thesis by (simp add: JNum number_text_def value_start_def is_json_space_def)
  next
    case False
    with start [of "nat i"] show ?thesis by (simp add: JNum number_text_def)
  qed
next
  case (JStr s)
  then show ?thesis by (simp add: string_text_def value_start_def is_json_space_def)
next
  case (JArr xs)
  then show ?thesis by (simp add: value_start_def is_json_space_def)
next
  case (JObj fs)
  then show ?thesis by (simp add: json_text_JObj value_start_def is_json_space_def del: json_text.simps)
qed

lemma skip_value_text:
  assumes "json_ok v"
  shows "dropWhile is_json_space (json_text v @ r) = json_text v @ r"
    and "\<exists>c cs. json_text v @ r = c # cs \<and> c \<noteq> 0x5D \<and> c \<noteq> 0x7D \<and> \<not> is_json_space c"
proof -
  from json_text_start [OF assms] obtain c cs where t: "json_text v = c # cs" "value_start c"
    by blast
  then show "dropWhile is_json_space (json_text v @ r) = json_text v @ r"
    by (simp add: value_start_def)
  from t show "\<exists>c cs. json_text v @ r = c # cs \<and> c \<noteq> 0x5D \<and> c \<noteq> 0x7D \<and> \<not> is_json_space c"
    by (simp add: value_start_def)
qed

lemma read_elements_commas:
  assumes "xs \<noteq> []" and "\<forall>x \<in> set xs. json_ok x \<and> reads_back x"
    and "sum_list (map (\<lambda>x. Suc (fuel x)) xs) \<le> n"
  shows "read_elements n (commas (map json_text xs) @ 0x5D # r) = Some (xs, r)"
  using assms
proof (induction xs arbitrary: n)
  case Nil
  then show ?case by simp
next
  case (Cons x xs)
  from Cons.prems(3) obtain m where n: "n = Suc m" and m: "fuel x \<le> m"
    "sum_list (map (\<lambda>x. Suc (fuel x)) xs) \<le> m"
    by (cases n) auto
  from Cons.prems(2) have x: "reads_back x" by simp
  show ?case
  proof (cases xs)
    case Nil
    have "read_value m (json_text x @ 0x5D # r) = Some (x, 0x5D # r)"
      using x m(1) separators unfolding reads_back_def by blast
    then show ?thesis by (simp add: n Nil separators)
  next
    case (Cons y ys)
    let ?rest = "commas (map json_text xs) @ 0x5D # r"
    have "read_value m (json_text x @ 0x2C # ?rest) = Some (x, 0x2C # ?rest)"
      using x m(1) separators unfolding reads_back_def by blast
    moreover have "read_elements m ?rest = Some (xs, r)"
      using Cons.IH [of m] Cons.prems(2) m(2) Cons by simp
    ultimately show ?thesis by (simp add: n Cons separators)
  qed
qed

lemma member_text_reads:
  "\<exists>cs. member_text p @ r = 0x22 # cs \<and>
        read_chars cs = Some (fst p, 0x3A # json_text (snd p) @ r)"
proof -
  have "member_text p @ r = 0x22 # (concat (map escape_unit (fst p)) @ 0x22 # (0x3A # json_text (snd p) @ r))"
    by (simp add: member_text_def string_text_def)
  moreover have "read_chars (concat (map escape_unit (fst p)) @ 0x22 # (0x3A # json_text (snd p) @ r)) =
        Some (fst p, 0x3A # json_text (snd p) @ r)"
    by (rule read_chars_string_body)
  ultimately show ?thesis by blast
qed

lemma read_members_commas:
  assumes "fs \<noteq> []" and "\<forall>p \<in> set fs. json_ok (snd p) \<and> reads_back (snd p)"
    and "sum_list (map (\<lambda>p. Suc (fuel (snd p))) fs) \<le> n"
  shows "read_members n (commas (map member_text fs) @ 0x7D # r) = Some (fs, r)"
  using assms
proof (induction fs arbitrary: n)
  case Nil
  then show ?case by simp
next
  case (Cons p fs)
  from Cons.prems(3) obtain m where n: "n = Suc m" and m: "fuel (snd p) \<le> m"
    "sum_list (map (\<lambda>p. Suc (fuel (snd p))) fs) \<le> m"
    by (cases n) auto
  from Cons.prems(2) have p: "reads_back (snd p)" by simp
  have kv: "(fst p, snd p) = p" by simp
  show ?case
  proof (cases fs)
    case Nil
    let ?r = "0x7D # r"
    obtain cs where cs: "member_text p @ ?r = 0x22 # cs"
      "read_chars cs = Some (fst p, 0x3A # json_text (snd p) @ ?r)"
      using member_text_reads [of p ?r] by blast
    have v: "read_value m (json_text (snd p) @ ?r) = Some (snd p, ?r)"
      using p m(1) separators unfolding reads_back_def by blast
    have "read_members (Suc m) (0x22 # cs) = Some ([p], r)"
      by (simp add: cs(2) v separators kv del: read_value.simps read_chars.simps)
    then show ?thesis by (simp add: n Nil cs(1) del: read_members.simps)
  next
    case (Cons q qs)
    let ?rest = "commas (map member_text fs) @ 0x7D # r"
    let ?r = "0x2C # ?rest"
    obtain cs where cs: "member_text p @ ?r = 0x22 # cs"
      "read_chars cs = Some (fst p, 0x3A # json_text (snd p) @ ?r)"
      using member_text_reads [of p ?r] by blast
    have v: "read_value m (json_text (snd p) @ ?r) = Some (snd p, ?r)"
      using p m(1) separators unfolding reads_back_def by blast
    have "read_members m ?rest = Some (fs, r)"
      using Cons.IH [of m] Cons.prems(2) m(2) Cons by simp
    then have final: "read_members (Suc m) (0x22 # cs) = Some (p # fs, r)"
      by (simp add: cs(2) v separators kv del: read_value.simps read_chars.simps)
    have shape: "commas (map member_text (p # fs)) @ 0x7D # r = member_text p @ ?r"
      using Cons by simp
    show ?thesis unfolding n shape cs(1) by (rule final)
  qed
qed

lemma commas_Cons: "\<exists>rest. commas (t # ts) = t @ rest"
  by (cases ts) simp_all

lemma number_start: "\<exists>c cs. number_text i = c # cs \<and> (c = 0x2D \<or> is_digit c)"
proof (cases "i < 0")
  case True
  then show ?thesis by (simp add: number_text_def)
next
  case False
  obtain d ds where ds: "digits_of (nat i) = d # ds"
    using digits_of_nonempty [of "nat i"] by (cases "digits_of (nat i)") auto
  have "is_digit d" using hd_digits_of_is_digit [of "nat i"] by (simp add: ds)
  with False ds show ?thesis by (simp add: number_text_def)
qed

lemma read_value_number:
  assumes "c = 0x2D \<or> is_digit c"
  shows "read_value (Suc m) (c # cs) = read_number (c # cs)"
proof -
  from assms have "\<not> is_json_space c" "c \<noteq> 0x5B" "c \<noteq> 0x7B" "c \<noteq> 0x22" "c \<noteq> 0x6E"
    "c \<noteq> 0x74" "c \<noteq> 0x66"
    by (auto simp: is_digit_def is_json_space_def)
  then show ?thesis by simp
qed

lemma reads_back_JNum: "reads_back (JNum i)"
  unfolding reads_back_def
proof (intro allI impI)
  fix n r assume n: "fuel (JNum i) \<le> n" and r: "ends_number r"
  from n obtain m where m: "n = Suc m" by (cases n) auto
  from number_start [of i] obtain c cs where c: "number_text i = c # cs" "c = 0x2D \<or> is_digit c"
    by blast
  have "read_value (Suc m) (c # cs @ r) = read_number (c # cs @ r)"
    using c(2) by (rule read_value_number)
  also have "\<dots> = read_number (number_text i @ r)" by (simp add: c(1))
  also have "\<dots> = Some (JNum i, r)" using r by (rule read_number_number_text)
  finally show "read_value n (json_text (JNum i) @ r) = Some (JNum i, r)"
    by (simp add: m c(1) del: read_value.simps)
qed

lemma reads_back_atoms: "reads_back JNull" "reads_back (JBool b)" "reads_back (JStr s)"
proof -
  show "reads_back JNull"
    unfolding reads_back_def
  proof (intro allI impI)
    fix n r assume "fuel JNull \<le> n"
    then obtain m where "n = Suc m" by (cases n) auto
    then show "read_value n (json_text JNull @ r) = Some (JNull, r)"
      by (simp add: str_def is_json_space_def)
  qed
  show "reads_back (JBool b)"
    unfolding reads_back_def
  proof (intro allI impI)
    fix n r assume "fuel (JBool b) \<le> n"
    then obtain m where "n = Suc m" by (cases n) auto
    then show "read_value n (json_text (JBool b) @ r) = Some (JBool b, r)"
      by (cases b) (simp_all add: str_def is_json_space_def)
  qed
  show "reads_back (JStr s)"
    unfolding reads_back_def
  proof (intro allI impI)
    fix n r assume "fuel (JStr s) \<le> n"
    then obtain m where "n = Suc m" by (cases n) auto
    then show "read_value n (json_text (JStr s) @ r) = Some (JStr s, r)"
      by (simp add: string_text_def is_json_space_def read_chars_string_body del: read_chars.simps)
  qed
qed

lemma reads_back_JArr:
  assumes "\<forall>x \<in> set xs. json_ok x \<and> reads_back x"
  shows "reads_back (JArr xs)"
  unfolding reads_back_def
proof (intro allI impI)
  fix n r assume n: "fuel (JArr xs) \<le> n"
  then obtain m where m: "n = Suc m" "sum_list (map (\<lambda>x. Suc (fuel x)) xs) \<le> m"
    by (cases n) auto
  show "read_value n (json_text (JArr xs) @ r) = Some (JArr xs, r)"
  proof (cases xs)
    case Nil
    then show ?thesis by (simp add: m(1) is_json_space_def)
  next
    case (Cons y ys)
    let ?body = "commas (map json_text xs) @ 0x5D # r"
    from commas_Cons [of "json_text y" "map json_text ys"] obtain rest
      where rest: "commas (map json_text xs) = json_text y @ rest" by (auto simp: Cons)
    from assms Cons have "json_ok y" by simp
    from skip_value_text [OF this, of "rest @ 0x5D # r"] obtain d ds
      where d: "?body = d # ds" "dropWhile is_json_space ?body = ?body" "d \<noteq> 0x5D"
      by (auto simp: rest)
    have elems: "read_elements m ?body = Some (xs, r)"
      using read_elements_commas [OF _ assms m(2)] Cons by simp
    have "read_value (Suc m) (0x5B # ?body) = Some (JArr xs, r)"
      using d elems by (simp add: is_json_space_def del: read_elements.simps)
    then show ?thesis by (simp add: m(1) del: read_value.simps)
  qed
qed

lemma reads_back_JObj:
  assumes "\<forall>p \<in> set fs. json_ok (snd p) \<and> reads_back (snd p)"
  shows "reads_back (JObj fs)"
  unfolding reads_back_def
proof (intro allI impI)
  fix n r assume n: "fuel (JObj fs) \<le> n"
  then obtain m where m: "n = Suc m" "sum_list (map (\<lambda>p. Suc (fuel (snd p))) fs) \<le> m"
    by (cases n) auto
  show "read_value n (json_text (JObj fs) @ r) = Some (JObj fs, r)"
  proof (cases fs)
    case Nil
    then show ?thesis by (simp add: m(1) is_json_space_def)
  next
    case (Cons q qs)
    let ?body = "commas (map member_text fs) @ 0x7D # r"
    from commas_Cons [of "member_text q" "map member_text qs"] obtain rest
      where rest: "commas (map member_text fs) = member_text q @ rest" by (auto simp: Cons)
    from member_text_reads [of q "rest @ 0x7D # r"] obtain ds
      where d: "?body = 0x22 # ds" by (auto simp: rest)
    have membs: "read_members m ?body = Some (fs, r)"
      using read_members_commas [OF _ assms m(2)] Cons by simp
    have "read_value (Suc m) (0x7B # ?body) = Some (JObj fs, r)"
      using membs unfolding d by (simp add: is_json_space_def del: read_members.simps)
    then show ?thesis by (simp add: m(1) json_text_JObj del: read_value.simps json_text.simps)
  qed
qed

lemma reads_back_all: "json_ok v \<Longrightarrow> reads_back v"
proof (induction v)
  case (JArr xs)
  then have "\<forall>x \<in> set xs. json_ok x \<and> reads_back x"
    by (auto simp: list_all_iff)
  then show ?case by (rule reads_back_JArr)
next
  case (JObj fs)
  then have "\<forall>p \<in> set fs. json_ok (snd p) \<and> reads_back (snd p)"
    by (auto simp: list_all_iff)
  then show ?case by (rule reads_back_JObj)
qed (simp_all add: reads_back_atoms reads_back_JNum)

lemma length_commas: "sum_list (map (\<lambda>t. Suc (length t)) ts) \<le> Suc (length (commas ts))"
  by (induction ts rule: commas.induct) simp_all

lemma fuel_le_length: "fuel v \<le> length (json_text v)"
proof (induction v)
  case (JArr xs)
  have "sum_list (map (\<lambda>x. Suc (fuel x)) xs) \<le> sum_list (map (\<lambda>x. Suc (length (json_text x))) xs)"
    using JArr.IH by (intro sum_list_mono) simp
  also have "\<dots> = sum_list (map (\<lambda>t. Suc (length t)) (map json_text xs))"
    by (simp add: comp_def)
  also have "\<dots> \<le> Suc (length (commas (map json_text xs)))"
    by (rule length_commas)
  finally show ?case by simp
next
  case (JObj fs)
  have "sum_list (map (\<lambda>p. Suc (fuel (snd p))) fs) \<le> sum_list (map (\<lambda>p. Suc (length (member_text p))) fs)"
  proof (intro sum_list_mono)
    fix p assume p: "p \<in> set fs"
    have "snd p \<in> Basic_BNFs.snds p" by (cases p) simp
    with p have "fuel (snd p) \<le> length (json_text (snd p))"
      by (rule JObj.IH)
    then show "Suc (fuel (snd p)) \<le> Suc (length (member_text p))"
      by (simp add: member_text_def)
  qed
  also have "\<dots> = sum_list (map (\<lambda>t. Suc (length t)) (map member_text fs))"
    by (simp add: comp_def)
  also have "\<dots> \<le> Suc (length (commas (map member_text fs)))"
    by (rule length_commas)
  finally show ?case by (simp add: json_text_JObj del: json_text.simps)
next
  case (JNum i)
  from number_start [of i] show ?case by auto
qed (simp_all add: str_def string_text_def)

lemma json_read_json_text:
  assumes "json_ok v"
  shows "json_read (json_text v) = Some v"
proof -
  have "fuel v \<le> Suc (length (json_text v))"
    using fuel_le_length [of v] by simp
  with reads_back_all [OF assms] separators(9)
  have "read_value (Suc (length (json_text v))) (json_text v @ []) = Some (v, [])"
    unfolding reads_back_def by blast
  then show ?thesis
    by (simp add: json_read_def del: read_value.simps)
qed

lemma json_ok_history_entry: "json_ok (history_entry l t)"
  by (simp add: history_entry_def)

lemma reference_round_trips: "json_ok v \<Longrightarrow> round_trips reference_runtime v"
  by (simp add: round_trips_def reference_runtime_sel json_read_json_text)

lemma reference_logs_round_trip:
  assumes "list_all json_ok h"
  shows "logs_round_trip reference_runtime h es"
proof -
  have "json_ok (JArr (log_after h (take k es)))" for k
  proof -
    have "list_all json_ok (rev (map entry_of (take k es)) @ h)"
      using assms by (auto simp: list_all_iff entry_of_def json_ok_history_entry)
    then show ?thesis
      by (auto simp: log_after_def list_all_iff dest: in_set_takeD)
  qed
  then show ?thesis
    by (simp add: logs_round_trip_def list_all_iff reference_round_trips)
qed

subsection \<open>The persisted entries\<close>

lemma getHistory_stored_example:
  "getHistory reference_runtime stored_example = [history_entry (str ''Heads'') 1700000000000]"
  by (simp add: getHistory_def getHistory_try_def getItem_def stored_example_def empty_storage_def reference_eval)

lemma save_stored_example:
  "saveFlipToHistory reference_runtime 1700000003200 (JStr (str ''Tails'')) stored_example =
     (True, stored_example\<lparr>item := Some (json_text (JArr
        [history_entry (str ''Tails'') 1700000003200, history_entry (str ''Heads'') 1700000000000]))\<rparr>)"
  by (simp add: saveFlipToHistory_def saveFlipToHistory_try_def getHistory_stored_example trim_Tails
      setItem_def slice0_def MAX_HISTORY_ENTRIES_def reference_runtime_sel str_nonempty example_flags)

lemma is_history_entry_history_entry: "is_history_entry (history_entry l t)"
  by (simp add: is_history_entry_def history_entry_def str_def)

lemma list_all_take: "list_all P xs \<Longrightarrow> list_all P (take n xs)"
  by (auto simp: list_all_iff dest: in_set_takeD)

lemma saveFlipToHistory_True:
  assumes "saveFlipToHistory rt now v st = (True, st')"
  shows "\<exists>l. v = JStr l \<and> l \<noteq> [] \<and> \<not> setItem_rejects st \<and>
           st' = st\<lparr>item := Some (JSON_stringify rt (JArr (take 10 (history_entry (trim l) now # getHistory rt st))))\<rparr>"
proof (cases v)
  case (JStr l)
  with assms show ?thesis
    by (auto simp: saveFlipToHistory_def saveFlipToHistory_try_def setItem_def slice0_def
        MAX_HISTORY_ENTRIES_def Let_def split: if_splits)
qed (use assms in \<open>simp_all add: saveFlipToHistory_def saveFlipToHistory_try_def\<close>)

text \<open>
  C1 (as amended). Every entry written by an append is an object with a string field \<open>side\<close>
  and an integer field \<open>timestamp\<close> (the field is called \<open>side\<close>, not \<open>label\<close>): after every
  successful append the slot holds the JSON text of the array made of the new
  \<open>{side, timestamp}\<close> entry followed by what \<open>getHistory\<close> read before, cut to ten elements;
  if everything read before was such an entry, every element written is one.
\<close>

theorem persisted_entries_shape:
  assumes "saveFlipToHistory rt now v st = (True, st')"
  shows "\<exists>l. v = JStr l \<and> l \<noteq> [] \<and>
           item st' = Some (JSON_stringify rt (JArr (take 10 (history_entry (trim l) now # getHistory rt st)))) \<and>
           length (take 10 (history_entry (trim l) now # getHistory rt st)) \<le> 10 \<and>
           is_history_entry (history_entry (trim l) now) \<and>
           (list_all is_history_entry (getHistory rt st) \<longrightarrow>
            list_all is_history_entry (take 10 (history_entry (trim l) now # getHistory rt st)))"
proof -
  from saveFlipToHistory_True [OF assms] obtain l where
    l: "v = JStr l" "l \<noteq> []"
      "st' = st\<lparr>item := Some (JSON_stringify rt (JArr (take 10 (history_entry (trim l) now # getHistory rt st))))\<rparr>"
    by blast
  have "list_all is_history_entry (getHistory rt st) \<longrightarrow>
        list_all is_history_entry (take 10 (history_entry (trim l) now # getHistory rt st))"
    using list_all_take [of is_history_entry "history_entry (trim l) now # getHistory rt st" 10]
    by (simp add: is_history_entry_history_entry)
  with l show ?thesis
    by (intro exI [of _ l]) (simp add: is_history_entry_history_entry)
qed

theorem persisted_entries_shape_witness:
  "item (snd (saveFlipToHistory reference_runtime 1700000003200 (JStr (str ''Tails'')) stored_example)) =
     Some (json_text (JArr [history_entry (str ''Tails'') 1700000003200, history_entry (str ''Heads'') 1700000000000])) \<and>
   list_all is_history_entry [history_entry (str ''Tails'') 1700000003200, history_entry (str ''Heads'') 1700000000000]"
  using persisted_entries_shape [OF save_stored_example]
  by (simp add: getHistory_stored_example trim_Tails is_history_entry_history_entry reference_runtime_sel
      save_stored_example)

text \<open>
  C1 as stated fails: the entry written for a flip of \<open>Heads\<close> has no \<open>label\<close> field,
  and an element already in the array that is not an entry is written back as it is.
\<close>

theorem persisted_entry_has_no_label_field:
  "saveFlipToHistory reference_runtime 1700000003200 (JStr (str ''Heads'')) empty_storage =
     (True, empty_storage\<lparr>item := Some (json_text (JArr
        [JObj [(str ''side'', JStr (str ''Heads'')), (str ''timestamp'', JNum 1700000003200)]]))\<rparr>) \<and>
   getProp (JObj [(str ''side'', JStr (str ''Heads'')), (str ''timestamp'', JNum 1700000003200)]) (str ''label'') = JUndefined \<and>
   saveFlipToHistory reference_runtime 1700000003200 (JStr (str ''Heads''))
       (empty_storage\<lparr>item := Some (str ''[7]'')\<rparr>) =
     (True, empty_storage\<lparr>item := Some (json_text (JArr
        [JObj [(str ''side'', JStr (str ''Heads'')), (str ''timestamp'', JNum 1700000003200)], JNum 7]))\<rparr>)"
proof -
  have t: "trim (str ''Heads'') = str ''Heads''"
    by (simp add: trim_def str_def isWhiteSpace_def)
  have h0: "getHistory reference_runtime empty_storage = []"
    by (simp add: getHistory_def getHistory_try_def getItem_def empty_storage_def)
  have h1: "getHistory reference_runtime (empty_storage\<lparr>item := Some (str ''[7]'')\<rparr>) = [JNum 7]"
    by (simp add: getHistory_def getHistory_try_def getItem_def empty_storage_def reference_eval)
  have a: "saveFlipToHistory reference_runtime 1700000003200 (JStr (str ''Heads'')) empty_storage =
     (True, empty_storage\<lparr>item := Some (json_text (JArr
        [JObj [(str ''side'', JStr (str ''Heads'')), (str ''timestamp'', JNum 1700000003200)]]))\<rparr>)"
    by (simp add: saveFlipToHistory_def saveFlipToHistory_try_def h0 t setItem_def slice0_def
        MAX_HISTORY_ENTRIES_def history_entry_def reference_runtime_sel str_nonempty example_flags)
  have b: "getProp (JObj [(str ''side'', JStr (str ''Heads'')), (str ''timestamp'', JNum 1700000003200)]) (str ''label'') = JUndefined"
    by (simp add: str_def)
  have c: "saveFlipToHistory reference_runtime 1700000003200 (JStr (str ''Heads''))
       (empty_storage\<lparr>item := Some (str ''[7]'')\<rparr>) =
     (True, empty_storage\<lparr>item := Some (json_text (JArr
        [JObj [(str ''side'', JStr (str ''Heads'')), (str ''timestamp'', JNum 1700000003200)], JNum 7]))\<rparr>)"
    by (simp add: saveFlipToHistory_def saveFlipToHistory_try_def h1 t setItem_def slice0_def
        MAX_HISTORY_ENTRIES_def history_entry_def reference_runtime_sel str_nonempty example_flags)
  from a b c show ?thesis by blast
qed

subsection \<open>Reading and writing defensively\<close>

text \<open>
  C10. For every argument that is not a non-empty string (\<open>null\<close>, \<open>undefined\<close>, the empty
  string, a value of another type), \<open>saveFlipToHistory\<close> returns \<open>false\<close> and leaves the
  storage as it was.
\<close>

theorem saveFlipToHistory_rejects_invalid:
  assumes "\<not> (\<exists>t. v = JStr t \<and> t \<noteq> [])"
  shows "saveFlipToHistory rt now v st = (False, st)"
proof (cases v)
  case (JStr t)
  with assms have "t = []" by simp
  with JStr show ?thesis
    by (simp add: saveFlipToHistory_def saveFlipToHistory_try_def)
qed (simp_all add: saveFlipToHistory_def saveFlipToHistory_try_def)

theorem saveFlipToHistory_rejects_invalid_witness:
  "saveFlipToHistory reference_runtime 1700000003200 JNull stored_example = (False, stored_example) \<and>
   saveFlipToHistory reference_runtime 1700000003200 JUndefined stored_example = (False, stored_example) \<and>
   saveFlipToHistory reference_runtime 1700000003200 (JStr []) stored_example = (False, stored_example) \<and>
   saveFlipToHistory reference_runtime 1700000003200 (JNum 7) stored_example = (False, stored_example)"
  using saveFlipToHistory_rejects_invalid [of JNull reference_runtime 1700000003200 stored_example]
    saveFlipToHistory_rejects_invalid [of JUndefined reference_runtime 1700000003200 stored_example]
    saveFlipToHistory_rejects_invalid [of "JStr []" reference_runtime 1700000003200 stored_example]
    saveFlipToHistory_rejects_invalid [of "JNum 7" reference_runtime 1700000003200 stored_example]
  by simp

text \<open>
  C5. \<open>getHistory\<close> never raises: it returns the empty array when the slot reads as \<open>null\<close>,
  when its text is not JSON, when the parsed value is not an array and when the read itself
  is rejected; when the text parses to an array it returns that array.
\<close>

theorem getHistory_defensive:
  "(getItem st = Inr None \<longrightarrow> getHistory rt st = []) \<and>
   (\<forall>j. getItem st = Inr (Some j) \<and> JSON_parse rt j = None \<longrightarrow> getHistory rt st = []) \<and>
   (\<forall>j v. getItem st = Inr (Some j) \<and> JSON_parse rt j = Some v \<and> \<not> isArray v \<longrightarrow> getHistory rt st = []) \<and>
   (\<forall>j xs. getItem st = Inr (Some j) \<and> JSON_parse rt j = Some (JArr xs) \<longrightarrow> getHistory rt st = xs) \<and>
   (\<forall>e. getItem st = Inl e \<longrightarrow> getHistory rt st = [])"
proof -
  have nonarr: "\<And>v. \<not> isArray v \<Longrightarrow> (case v of JArr xs \<Rightarrow> Inr xs | _ \<Rightarrow> Inr []) = (Inr [] :: error + jsvalue list)"
    by (case_tac v) simp_all
  show ?thesis
    by (simp add: getHistory_def getHistory_try_def nonarr)
qed

theorem getHistory_defensive_witness:
  "getHistory reference_runtime empty_storage = [] \<and>
   getHistory reference_runtime (empty_storage\<lparr>item := Some (str ''Heads, Tails'')\<rparr>) = [] \<and>
   getHistory reference_runtime (empty_storage\<lparr>item := Some (json_text (history_entry (str ''Heads'') 1700000000000))\<rparr>) = [] \<and>
   getHistory reference_runtime stored_example = [history_entry (str ''Heads'') 1700000000000] \<and>
   getHistory reference_runtime (stored_example\<lparr>getItem_rejects := True\<rparr>) = []"
proof -
  have p1: "JSON_parse reference_runtime (str ''Heads, Tails'') = None"
    by (simp add: reference_eval)
  have p2: "JSON_parse reference_runtime (json_text (history_entry (str ''Heads'') 1700000000000))
            = Some (history_entry (str ''Heads'') 1700000000000)"
    by (simp add: reference_eval)
  have p3: "JSON_parse reference_runtime (json_text (JArr [history_entry (str ''Heads'') 1700000000000]))
            = Some (JArr [history_entry (str ''Heads'') 1700000000000])"
    by (simp add: reference_eval)
  have n2: "\<not> isArray (history_entry (str ''Heads'') 1700000000000)"
    by (simp add: history_entry_def)
  show ?thesis
    using getHistory_defensive [of empty_storage reference_runtime]
      getHistory_defensive [of "empty_storage\<lparr>item := Some (str ''Heads, Tails'')\<rparr>" reference_runtime]
      getHistory_defensive [of "empty_storage\<lparr>item := Some (json_text (history_entry (str ''Heads'') 1700000000000))\<rparr>" reference_runtime]
      getHistory_defensive [of stored_example reference_runtime]
      getHistory_defensive [of "stored_example\<lparr>getItem_rejects := True\<rparr>" reference_runtime]
      p1 p2 p3 n2
    by (simp add: getItem_def empty_storage_def stored_example_def)
qed

subsection \<open>Appending to the log\<close>

lemma take_append_take: "take n (xs @ take n ys) = take n (xs @ ys)"
  by (simp add: min_def)

lemma log_after_Cons: "log_after (log_after h [e]) es = log_after h (e # es)"
proof -
  have "log_after (log_after h [e]) es = take 10 (rev (map entry_of es) @ take 10 (entry_of e # h))"
    by (simp only: log_after_def list.map rev.simps append_Nil append_Cons)
  also have "\<dots> = take 10 (rev (map entry_of es) @ entry_of e # h)"
    by (rule take_append_take)
  also have "\<dots> = log_after h (e # es)"
    by (simp only: log_after_def list.map rev.simps append_assoc append_Nil append_Cons)
  finally show ?thesis .
qed

lemma save_then_read:
  assumes "\<not> getItem_rejects st" and "\<not> setItem_rejects st" and "fst e \<noteq> []"
    and "round_trips rt (JArr (log_after (getHistory rt st) [e]))"
  shows "saveFlipToHistory rt (snd e) (JStr (fst e)) st =
           (True, st\<lparr>item := Some (JSON_stringify rt (JArr (log_after (getHistory rt st) [e])))\<rparr>)"
    and "getHistory rt (snd (saveFlipToHistory rt (snd e) (JStr (fst e)) st)) = log_after (getHistory rt st) [e]"
proof -
  have la: "log_after (getHistory rt st) [e] = take 10 (history_entry (trim (fst e)) (snd e) # getHistory rt st)"
    by (simp add: log_after_def entry_of_def)
  show a: "saveFlipToHistory rt (snd e) (JStr (fst e)) st =
           (True, st\<lparr>item := Some (JSON_stringify rt (JArr (log_after (getHistory rt st) [e])))\<rparr>)"
    using assms(2,3) unfolding la
    by (simp add: saveFlipToHistory_def saveFlipToHistory_try_def setItem_def slice0_def
        MAX_HISTORY_ENTRIES_def Let_def)
  show "getHistory rt (snd (saveFlipToHistory rt (snd e) (JStr (fst e)) st)) = log_after (getHistory rt st) [e]"
    using assms(1,4) unfolding a round_trips_def
    by (simp add: getHistory_def [of rt "st\<lparr>item := _\<rparr>"] getHistory_try_def [of rt "st\<lparr>item := _\<rparr>"] getItem_def)
qed

lemma logs_round_trip_Cons:
  assumes "logs_round_trip rt h (e # es)"
  shows "round_trips rt (JArr (log_after h [e]))"
    and "logs_round_trip rt (log_after h [e]) es"
proof -
  have all: "round_trips rt (JArr (log_after h (take k (e # es))))"
    if "1 \<le> k" "k \<le> Suc (length es)" for k
  proof -
    from that have "k \<in> {1..<Suc (length (e # es))}" by auto
    then have "k \<in> set [1..<Suc (length (e # es))]" by (simp only: set_upt)
    with assms show ?thesis
      unfolding logs_round_trip_def list_all_iff by blast
  qed
  from all [of 1] show "round_trips rt (JArr (log_after h [e]))" by simp
  show "logs_round_trip rt (log_after h [e]) es"
    unfolding logs_round_trip_def list_all_iff
  proof
    fix k assume "k \<in> set [1..<Suc (length es)]"
    then have "k \<in> {1..<Suc (length es)}" by (simp only: set_upt)
    then have k: "1 \<le> Suc k" "Suc k \<le> Suc (length es)" by auto
    from all [OF k] have "round_trips rt (JArr (log_after h (e # take k es)))"
      by simp
    then show "round_trips rt (JArr (log_after (log_after h [e]) (take k es)))"
      by (simp only: log_after_Cons)
  qed
qed

lemma append_all_reads:
  assumes "\<not> getItem_rejects st" and "\<not> setItem_rejects st"
    and "\<forall>e \<in> set es. fst e \<noteq> []" and "es \<noteq> []"
    and "logs_round_trip rt (getHistory rt st) es"
  shows "getHistory rt (append_all rt es st) = log_after (getHistory rt st) es"
  using assms
proof (induction es arbitrary: st)
  case Nil
  then show ?case by simp
next
  case (Cons e es)
  let ?st1 = "snd (saveFlipToHistory rt (snd e) (JStr (fst e)) st)"
  let ?h1 = "log_after (getHistory rt st) [e]"
  from Cons.prems(3) have l: "fst e \<noteq> []" by simp
  from logs_round_trip_Cons [OF Cons.prems(5)]
  have rt1: "round_trips rt (JArr ?h1)" and rest: "logs_round_trip rt ?h1 es" by simp_all
  note step = save_then_read [OF Cons.prems(1) Cons.prems(2) l rt1]
  have flags: "\<not> getItem_rejects ?st1" "\<not> setItem_rejects ?st1"
    using Cons.prems(1,2) by (simp_all add: step(1))
  have unfold: "append_all rt (e # es) st = append_all rt es ?st1"
    by (cases e) simp
  show ?case
  proof (cases "es = []")
    case True
    then show ?thesis using step(2) unfold by simp
  next
    case False
    have "getHistory rt (append_all rt es ?st1) = log_after (getHistory rt ?st1) es"
      using Cons.IH [OF flags _ False] Cons.prems(3) rest step(2) by simp
    then show ?thesis
      by (simp only: unfold step(2) log_after_Cons)
  qed
qed

text \<open>
  C3. Whatever the log read at the start, after a sequence of appends \<open>getHistory\<close> returns
  the new entries, newest first, followed by the old ones in their order, cut to the ten
  first: each append puts its entry in front and drops what falls beyond ten. The storage
  is taken to accept the calls, the labels to be non-empty, and the runtime to read back
  the logs it writes. Twelve appends \<open>E1\<close> ... \<open>E12\<close> to an empty slot leave
  \<open>[E12, ..., E3]\<close>.
\<close>

theorem appends_prepend_and_truncate:
  assumes "\<not> getItem_rejects st" and "\<not> setItem_rejects st"
    and "\<forall>e \<in> set es. fst e \<noteq> []" and "es \<noteq> []"
    and "logs_round_trip rt (getHistory rt st) es"
  shows "getHistory rt (append_all rt es st) = take 10 (rev (map entry_of es) @ getHistory rt st)"
  using append_all_reads [OF assms] by (simp only: log_after_def)

theorem appends_prepend_and_truncate_witness:
  "getHistory reference_runtime (append_all reference_runtime twelve_entries empty_storage) =
     [history_entry (str ''E12'') 1700000038400, history_entry (str ''E11'') 1700000035200,
      history_entry (str ''E10'') 1700000032000, history_entry (str ''E9'') 1700000028800,
      history_entry (str ''E8'') 1700000025600, history_entry (str ''E7'') 1700000022400,
      history_entry (str ''E6'') 1700000019200, history_entry (str ''E5'') 1700000016000,
      history_entry (str ''E4'') 1700000012800, history_entry (str ''E3'') 1700000009600]"
proof -
  have h0: "getHistory reference_runtime empty_storage = []"
    by (simp add: getHistory_def getHistory_try_def getItem_def empty_storage_def)
  have ne: "\<forall>e \<in> set twelve_entries. fst e \<noteq> []" "twelve_entries \<noteq> []"
    by (simp_all add: twelve_entries_def str_def)
  have fl: "\<not> getItem_rejects empty_storage" "\<not> setItem_rejects empty_storage"
    by (simp_all add: empty_storage_def)
  have "logs_round_trip reference_runtime (getHistory reference_runtime empty_storage) twelve_entries"
    by (rule reference_logs_round_trip) (simp add: h0)
  from appends_prepend_and_truncate [OF fl ne this]
  show ?thesis
    by (simp add: h0 twelve_entries_def entry_of_def trim_def isWhiteSpace_def str_def)
qed

subsection \<open>The guard of the coordinator\<close>

lemma statement_effect:
  assumes "2 \<le> k" and "k < 11"
  shows "flip_statement env c (flip_steps ! k) s = (e, s') \<Longrightarrow>
         (k \<le> 8 \<longrightarrow> flipInProgressRef s' = (if k = 8 \<and> e = None then False else flipInProgressRef s)) \<and>
         (8 < k \<longrightarrow> e = None \<and> flipInProgressRef s' = flipInProgressRef s)"
proof -
  from assms have "k \<in> {2, 3, 4, 5, 6, 7, 8, 9, 10}" by auto
  then show "flip_statement env c (flip_steps ! k) s = (e, s') \<Longrightarrow>
         (k \<le> 8 \<longrightarrow> flipInProgressRef s' = (if k = 8 \<and> e = None then False else flipInProgressRef s)) \<and>
         (8 < k \<longrightarrow> e = None \<and> flipInProgressRef s' = flipInProgressRef s)"
    by (auto simp: flip_steps_def stmt_def try_catch_def ignore_def save_to_history_def split: if_splits)
qed

lemma filter_update_count:
  "i < length xs \<Longrightarrow>
   length (filter P (xs[i := y])) + (if P (xs ! i) then 1 else 0) =
   length (filter P xs) + (if P y then 1 else 0)"
proof (induction xs arbitrary: i)
  case Nil
  then show ?case by simp
next
  case (Cons x xs)
  show ?case
  proof (cases i)
    case 0
    then show ?thesis by simp
  next
    case (Suc j)
    with Cons.prems have "j < length xs" by simp
    from Cons.IH [OF this] show ?thesis by (simp add: Suc)
  qed
qed

lemma holds_guard_member:
  "i < length acts \<Longrightarrow> holds_guard (acts ! i) \<Longrightarrow> 1 \<le> length (filter holds_guard acts)"
proof -
  assume "i < length acts" and "holds_guard (acts ! i)"
  then have "acts ! i \<in> set (filter holds_guard acts)" by simp
  then have "filter holds_guard acts \<noteq> []" by (metis empty_iff empty_set)
  then show ?thesis by (cases "filter holds_guard acts") simp_all
qed

lemma guard_inv_call:
  assumes "guard_inv w"
  shows "guard_inv (flipCoin_call env c w)"
proof (cases w)
  case (Pair s acts)
  show ?thesis
  proof (cases "flipInProgressRef s \<or> isFlipping c")
    case True
    then show ?thesis using assms by (simp add: flipCoin_call_def Pair)
  next
    case False
    with assms have zero: "length (filter holds_guard acts) = 0" and pcs: "list_all (\<lambda>a. 2 \<le> pc a) acts"
      by (simp_all add: guard_inv_def in_progress_def Pair)
    from False zero pcs show ?thesis
      by (simp add: flipCoin_call_def Pair flip_steps_def stmt_def flipCoin_catch_def guard_inv_def
          in_progress_def holds_guard_def)
  qed
qed

lemma guard_inv_resume:
  assumes "guard_inv w"
  shows "guard_inv (flipCoin_resume i w)"
proof (cases w)
  case (Pair s acts)
  show ?thesis
  proof (cases "i < length acts \<and> pc (acts ! i) < length flip_steps")
    case False
    then show ?thesis using assms by (auto simp: flipCoin_resume_def Pair)
  next
    case True
    define a where "a = acts ! i"
    define k where "k = pc a"
    from True have i: "i < length acts" and k11: "k < 11"
      by (simp_all add: a_def k_def flip_steps_def)
    from assms have pcs: "list_all (\<lambda>a. 2 \<le> pc a) acts"
      and cnt: "length (filter holds_guard acts) = (if flipInProgressRef s then 1 else 0)"
      by (simp_all add: guard_inv_def in_progress_def Pair)
    from pcs i have k2: "2 \<le> k" by (simp add: a_def k_def list_all_length)
    obtain e s' where run: "flip_statement (act_env a) (act_closure a) (flip_steps ! k) s = (e, s')"
      by (cases "flip_statement (act_env a) (act_closure a) (flip_steps ! k) s") simp
    note eff = statement_effect [OF k2 k11 run]
    have upd: "length (filter holds_guard (acts[i := b])) + (if k \<le> 8 then 1 else 0) =
               length (filter holds_guard acts) + (if holds_guard b then 1 else 0)" for b
      using filter_update_count [OF i, of holds_guard b] by (simp add: holds_guard_def a_def k_def)
    have pcs': "2 \<le> pc b \<Longrightarrow> list_all (\<lambda>a. 2 \<le> pc a) (acts[i := b])" for b
      using pcs i by (auto simp: list_all_iff dest: subsetD [OF set_update_subset_insert])
    have held: "k \<le> 8 \<Longrightarrow> flipInProgressRef s"
    proof -
      assume "k \<le> 8"
      then have "holds_guard (acts ! i)" by (simp add: holds_guard_def a_def k_def)
      from holds_guard_member [OF i this] cnt show "flipInProgressRef s"
        by (cases "flipInProgressRef s") simp_all
    qed
    show ?thesis
    proof (cases e)
      case None
      have res: "flipCoin_resume i w = (s', acts[i := a\<lparr>pc := Suc k\<rparr>])"
        using True run None by (simp add: flipCoin_resume_def Pair a_def k_def Let_def)
      have "length (filter holds_guard (acts[i := a\<lparr>pc := Suc k\<rparr>])) = (if flipInProgressRef s' then 1 else 0)"
        using upd [of "a\<lparr>pc := Suc k\<rparr>"] eff cnt held None
        by (auto simp: holds_guard_def split: if_splits)
      moreover have "list_all (\<lambda>a. 2 \<le> pc a) (acts[i := a\<lparr>pc := Suc k\<rparr>])"
        using k2 by (intro pcs') simp
      ultimately show ?thesis by (simp add: res guard_inv_def in_progress_def)
    next
      case (Some err)
      have res: "flipCoin_resume i w =
          (s'\<lparr>isFlipping := False, flipInProgressRef := False\<rparr>, acts[i := a\<lparr>pc := length flip_steps\<rparr>])"
        using True run Some by (simp add: flipCoin_resume_def Pair a_def k_def Let_def flipCoin_catch_def)
      from eff Some have k8: "k \<le> 8" by auto
      have "length (filter holds_guard (acts[i := a\<lparr>pc := length flip_steps\<rparr>])) = 0"
        using upd [of "a\<lparr>pc := length flip_steps\<rparr>"] cnt held [OF k8] k8
        by (simp add: holds_guard_def flip_steps_def)
      moreover have "list_all (\<lambda>a. 2 \<le> pc a) (acts[i := a\<lparr>pc := length flip_steps\<rparr>])"
        by (intro pcs') (simp add: flip_steps_def)
      ultimately show ?thesis by (simp add: res guard_inv_def in_progress_def)
    qed
  qed
qed

lemma guard_inv_occur: "guard_inv w \<Longrightarrow> guard_inv (occur w ev)"
proof (cases w)
  case (Pair s acts)
  assume inv: "guard_inv w"
  show ?thesis
  proof (cases ev)
    case (Press env c)
    then show ?thesis using guard_inv_call [OF inv] by simp
  next
    case (Resume i)
    then show ?thesis using guard_inv_resume [OF inv] by simp
  next
    case (Reset h c)
    then show ?thesis using inv
      by (simp add: Pair guard_inv_def in_progress_def resetResult_def)
  next
    case (Toggle c)
    then show ?thesis using inv
      by (simp add: Pair guard_inv_def in_progress_def toggleMode_def)
  next
    case (Edit e)
    then show ?thesis using inv
      by (cases e) (simp_all add: Pair guard_inv_def in_progress_def
          handleCustomSideAChange_def handleCustomSideBChange_def)
  qed
qed

lemma guard_inv_run: "guard_inv w \<Longrightarrow> guard_inv (foldl occur w evs)"
  by (induction evs arbitrary: w) (simp_all add: guard_inv_occur)

lemma resume_finished:
  "pc a = length flip_steps \<Longrightarrow> (flipCoin_resume 0 ^^ n) (s, [a]) = (s, [a])"
  by (induction n) (simp_all add: flipCoin_resume_def)

lemma resume_runs_block:
  assumes "k + n = length flip_steps"
  shows "fst ((flipCoin_resume 0 ^^ n) (s, [\<lparr>act_env = env, act_closure = c, pc = k\<rparr>])) =
         snd (try_catch (run_block (drop k (map (flip_statement env c) flip_steps))) flipCoin_catch s)"
  using assms
proof (induction n arbitrary: k s)
  case 0
  then show ?case by (simp add: try_catch_def)
next
  case (Suc n)
  let ?a = "\<lparr>act_env = env, act_closure = c, pc = k\<rparr>"
  let ?stmts = "map (flip_statement env c) flip_steps"
  from Suc.prems have k: "k < length flip_steps" by simp
  then have split: "drop k ?stmts = flip_statement env c (flip_steps ! k) # drop (Suc k) ?stmts"
    by (simp add: Cons_nth_drop_Suc [symmetric])
  obtain e s' where run: "flip_statement env c (flip_steps ! k) s = (e, s')"
    by (cases "flip_statement env c (flip_steps ! k) s") simp
  have first: "(flipCoin_resume 0 ^^ Suc n) (s, [?a]) = (flipCoin_resume 0 ^^ n) (flipCoin_resume 0 (s, [?a]))"
    by (simp only: funpow_Suc_right o_apply)
  show ?case
  proof (cases e)
    case None
    have "flipCoin_resume 0 (s, [?a]) = (s', [\<lparr>act_env = env, act_closure = c, pc = Suc k\<rparr>])"
      using k run None by (simp add: flipCoin_resume_def Let_def)
    moreover have "Suc k + n = length flip_steps" using Suc.prems by simp
    ultimately show ?thesis
      using Suc.IH [of "Suc k" s'] run None
      by (simp only: first split) (simp add: try_catch_def)
  next
    case (Some err)
    have "flipCoin_resume 0 (s, [?a]) =
        (snd (flipCoin_catch err s'), [\<lparr>act_env = env, act_closure = c, pc = length flip_steps\<rparr>])"
      using k run Some by (simp add: flipCoin_resume_def Let_def)
    then show ?thesis
      using run Some
      by (simp only: first split) (simp add: try_catch_def resume_finished)
  qed
qed

lemma flipCoin_as_events:
  assumes "\<not> flipInProgressRef s" and "\<not> isFlipping c"
  shows "fst ((flipCoin_resume 0 ^^ 9) (flipCoin_call env c (s, []))) = snd (flipCoin env c s)"
proof -
  let ?stmts = "map (flip_statement env c) flip_steps"
  have two: "?stmts = take 2 ?stmts @ drop 2 ?stmts" by simp
  have len: "2 + 9 = length flip_steps" by (simp add: flip_steps_def)
  obtain e s' where pre: "run_block (take 2 ?stmts) s = (e, s')"
    by (cases "run_block (take 2 ?stmts) s") simp
  have seq: "run_block (xs @ ys) t = (case run_block xs t of (Some e, t') \<Rightarrow> (Some e, t') | (None, t') \<Rightarrow> run_block ys t')"
    for xs ys t
    by (induction xs arbitrary: t) (auto split: prod.splits option.splits)
  have full: "run_block ?stmts s =
      (case run_block (take 2 ?stmts) s of
         (Some e, t') \<Rightarrow> (Some e, t') | (None, t') \<Rightarrow> run_block (drop 2 ?stmts) t')"
    using seq [of "take 2 ?stmts" "drop 2 ?stmts" s] by simp
  have whole: "flipCoin env c s = try_catch (run_block ?stmts) flipCoin_catch s"
    using assms by (simp add: flipCoin_def flipCoin_try_def)
  show ?thesis
  proof (cases e)
    case None
    have "flipCoin_call env c (s, []) = (s', [\<lparr>act_env = env, act_closure = c, pc = 2\<rparr>])"
      using assms pre None by (simp add: flipCoin_call_def take_map)
    then show ?thesis
      using resume_runs_block [OF len, of s' env c] pre None
      by (simp only: whole) (simp add: try_catch_def full)
  next
    case (Some err)
    have "flipCoin_call env c (s, []) = (snd (flipCoin_catch err s'), [])"
      using assms pre Some by (simp add: flipCoin_call_def take_map)
    moreover have "(flipCoin_resume 0 ^^ n) (t, []) = (t, [])" for n t
      by (induction n) (simp_all add: flipCoin_resume_def)
    ultimately show ?thesis
      using pre Some by (simp only: whole) (simp add: try_catch_def full)
  qed
qed

text \<open>
  C2. A call of \<open>flipCoin\<close> made while a flip is in progress (the ref is set, or the render
  of the handler shows \<open>isFlipping\<close>) returns at once: no error, no change of state, no
  new activation. So, from a state where no flip is in progress, whatever presses,
  resumptions, resets, mode switches and label edits follow, at most one activation holds
  the guard.
\<close>

theorem at_most_one_flip_in_progress:
  "(flipInProgressRef s \<or> isFlipping c \<longrightarrow>
      flipCoin env c s = (None, s) \<and> flipCoin_call env c (s, acts) = (s, acts)) \<and>
   (\<not> flipInProgressRef s0 \<longrightarrow> in_progress (foldl occur (s0, []) evs) \<le> 1)"
proof -
  have "guard_inv (foldl occur (s0, []) evs)" if "\<not> flipInProgressRef s0"
    using that by (intro guard_inv_run) (simp add: guard_inv_def in_progress_def)
  then have "\<not> flipInProgressRef s0 \<longrightarrow> in_progress (foldl occur (s0, []) evs) \<le> 1"
    by (auto simp: guard_inv_def split: if_splits)
  then show ?thesis
    by (simp add: flipCoin_def flipCoin_call_def)
qed

theorem at_most_one_flip_in_progress_witness:
  "flipCoin (calm_env (1/4)) mount_render busy_app = (None, busy_app) \<and>
   flipCoin_call (calm_env (1/4)) mount_render (busy_app, []) = (busy_app, []) \<and>
   in_progress (foldl occur (initial_app empty_storage, [])
     [Press (calm_env (1/4)) mount_render, Press (calm_env (3/4)) mount_render, Resume 0,
      Press (calm_env (3/4)) mount_render]) \<le> 1"
  using at_most_one_flip_in_progress [of busy_app mount_render "calm_env (1/4)" "[]"
      "initial_app empty_storage"
      "[Press (calm_env (1/4)) mount_render, Press (calm_env (3/4)) mount_render, Resume 0,
        Press (calm_env (3/4)) mount_render]"]
  by (simp add: busy_app_def initial_app_def)

text \<open>
  C6. Once the guard is free for the call, whichever statements of the flip sequence
  raise, \<open>flipCoin\<close> signals no error and ends with \<open>isFlipping\<close> false and the ref cleared.
  The result is left as it stood when the failure came: what it was before the call if a
  statement up to \<open>setSide\<close> raised (so unset if nothing had been set), the new result
  otherwise.
\<close>

theorem flipCoin_always_releases:
  assumes "\<not> flipInProgressRef s" and "\<not> isFlipping c"
  shows "fst (flipCoin env c s) = None \<and>
         \<not> isFlipping (snd (flipCoin env c s)) \<and>
         \<not> flipInProgressRef (snd (flipCoin env c s)) \<and>
         side (snd (flipCoin env c s)) =
           (if throws env SetRef \<or> throws env SetIsFlippingTrue \<or> throws env PreRoll \<or>
               throws env DetermineResult \<or> throws env AnimationWait \<or> throws env SetSide
            then side s else Some (determine_result (random env) c))"
  using assms
  by (simp add: flipCoin_def flipCoin_try_def flip_steps_def stmt_def try_catch_def ignore_def
      flipCoin_catch_def save_to_history_def Let_def)

theorem flipCoin_always_releases_witness:
  "fst (flipCoin (fault_env AnimationWait (3/4)) heads_app heads_app) = None \<and>
   \<not> isFlipping (snd (flipCoin (fault_env AnimationWait (3/4)) heads_app heads_app)) \<and>
   \<not> flipInProgressRef (snd (flipCoin (fault_env AnimationWait (3/4)) heads_app heads_app)) \<and>
   side (snd (flipCoin (fault_env AnimationWait (3/4)) heads_app heads_app)) = Some (str ''Heads'') \<and>
   \<not> isFlipping (snd (flipCoin (fault_env SetIsFlippingFalse (3/4)) heads_app heads_app)) \<and>
   \<not> flipInProgressRef (snd (flipCoin (fault_env SetIsFlippingFalse (3/4)) heads_app heads_app)) \<and>
   side (snd (flipCoin (fault_env SetIsFlippingFalse (3/4)) heads_app heads_app)) = Some (str ''Tails'')"
proof -
  have pre: "\<not> flipInProgressRef heads_app" "\<not> isFlipping heads_app"
    "side heads_app = Some (str ''Heads'')" "\<not> isCustomMode heads_app"
    by (simp_all add: heads_app_def initial_app_def)
  have env: "throws (fault_env p r) q = (q = p)" "random (fault_env p r) = r" for p q r
    by (simp_all add: fault_env_def)
  from flipCoin_always_releases [OF pre(1,2), of "fault_env AnimationWait (3/4)"]
    flipCoin_always_releases [OF pre(1,2), of "fault_env SetIsFlippingFalse (3/4)"]
  show ?thesis
    by (simp add: env pre(3,4) determine_result_def)
qed

text \<open>
  C7. \<open>resetResult\<close> and \<open>toggleMode\<close> called while a flip is in progress (the ref is set,
  or the render the handler belongs to shows \<open>isFlipping\<close>) return the state unchanged:
  result, mode and both labels stay as they were.
\<close>

theorem guarded_handlers_noop:
  assumes "isFlipping c \<or> flipInProgressRef s"
  shows "resetResult h c s = s \<and> toggleMode c s = s"
  using assms by (auto simp add: resetResult_def toggleMode_def)

theorem guarded_handlers_noop_witness:
  "resetResult False mount_render (busy_app\<lparr>side := Some (str ''Heads'')\<rparr>) =
     busy_app\<lparr>side := Some (str ''Heads'')\<rparr> \<and>
   toggleMode mount_render (busy_app\<lparr>side := Some (str ''Heads'')\<rparr>) =
     busy_app\<lparr>side := Some (str ''Heads'')\<rparr>"
  using guarded_handlers_noop [of mount_render "busy_app\<lparr>side := Some (str ''Heads'')\<rparr>" False]
  by (simp add: busy_app_def)

subsection \<open>Outcome and label of a flip\<close>

lemma flipCoin_run:
  assumes "\<not> flipInProgressRef s" and "\<not> isFlipping c" and "\<forall>p. \<not> throws env p"
  shows "flipCoin env c s =
    (None, s\<lparr>side := Some (determine_result (random env) c), isFlipping := False, flipInProgressRef := False,
       storage := snd (saveFlipToHistory (runtime env) (date_now env)
         (JStr (historyLabel c (determine_result (random env) c))) (storage s))\<rparr>)"
  using assms
  by (simp add: flipCoin_def flipCoin_try_def flip_steps_def stmt_def try_catch_def ignore_def
      save_to_history_def Let_def)

lemma custom_result:
  assumes "isCustomMode c"
  shows "determine_result r c = (if r < 0.5 then str ''A'' else str ''B'')"
    and "historyLabel c (determine_result r c) =
          (if r < 0.5 then resolved_label (customSideA c) (str ''A'') else resolved_label (customSideB c) (str ''B''))"
    and "trim (historyLabel c (determine_result r c)) = historyLabel c (determine_result r c)"
    and "historyLabel c (determine_result r c) \<noteq> []"
proof -
  show d: "determine_result r c = (if r < 0.5 then str ''A'' else str ''B'')"
    using assms by (simp add: determine_result_def)
  show h: "historyLabel c (determine_result r c) =
          (if r < 0.5 then resolved_label (customSideA c) (str ''A'') else resolved_label (customSideB c) (str ''B''))"
    unfolding d by (auto simp: historyLabel_def resolved_label_def str_neq trim_Nil)
  show "trim (historyLabel c (determine_result r c)) = historyLabel c (determine_result r c)"
    unfolding h by (simp add: resolved_label_def trim_trim trim_A_B)
  show "historyLabel c (determine_result r c) \<noteq> []"
    unfolding h by (simp add: resolved_label_def str_neq)
qed

text \<open>
  A flip that runs to its end in the Custom mode of the render it closes over commits \<open>A\<close>
  or \<open>B\<close> whatever the labels are; the label shown and the label written to the history
  are the trimmed custom label of the side drawn when that is not empty, else \<open>A\<close> or \<open>B\<close>.
  This is the flip of the button and of the coin's pan gesture, whose \<open>flipCoin\<close> is that
  of the current render. With labels \<open>Pizza\<close> and the empty string, side A is logged as
  \<open>Pizza\<close> and side B as \<open>B\<close>.
\<close>

lemma custom_flip_outcome_and_label:
  assumes "isCustomMode c" and "\<not> flipInProgressRef s" and "\<not> isFlipping c"
    and "\<forall>p. \<not> throws env p" and "\<not> setItem_rejects (storage s)"
    and "label = (if random env < 0.5 then resolved_label (customSideA c) (str ''A'')
                  else resolved_label (customSideB c) (str ''B''))"
  shows "side (snd (flipCoin env c s)) = Some (if random env < 0.5 then str ''A'' else str ''B'') \<and>
         getDisplayLabel (c\<lparr>side := side (snd (flipCoin env c s))\<rparr>) = label \<and>
         item (storage (snd (flipCoin env c s))) =
           Some (JSON_stringify (runtime env)
             (JArr (take 10 (history_entry label (date_now env) # getHistory (runtime env) (storage s)))))"
proof -
  note run = flipCoin_run [OF assms(2,3,4)]
  note cr = custom_result [OF assms(1), of "random env"]
  have l: "historyLabel c (determine_result (random env) c) = label"
    using cr(2) assms(6) by simp
  have a: "side (snd (flipCoin env c s)) = Some (if random env < 0.5 then str ''A'' else str ''B'')"
    by (simp add: run cr(1))
  have b: "getDisplayLabel (c\<lparr>side := side (snd (flipCoin env c s))\<rparr>) = label"
    unfolding a assms(6) by (auto simp: getDisplayLabel_def resolved_label_def str_neq trim_Nil)
  have "saveFlipToHistory (runtime env) (date_now env) (JStr label) (storage s) =
      (True, (storage s)\<lparr>item := Some (JSON_stringify (runtime env)
             (JArr (take 10 (history_entry label (date_now env) # getHistory (runtime env) (storage s)))))\<rparr>)"
    using cr(3,4) assms(5) unfolding l
    by (simp add: saveFlipToHistory_def saveFlipToHistory_try_def setItem_def slice0_def
        MAX_HISTORY_ENTRIES_def Let_def)
  then have c: "item (storage (snd (flipCoin env c s))) =
           Some (JSON_stringify (runtime env)
             (JArr (take 10 (history_entry label (date_now env) # getHistory (runtime env) (storage s)))))"
    by (simp add: run l)
  from a b c show ?thesis by blast
qed

lemma custom_flip_pizza:
  "side (snd (flipCoin (calm_env (1/4)) pizza_app pizza_app)) = Some (str ''A'') \<and>
   getDisplayLabel (pizza_app\<lparr>side := side (snd (flipCoin (calm_env (1/4)) pizza_app pizza_app))\<rparr>) = str ''Pizza'' \<and>
   item (storage (snd (flipCoin (calm_env (1/4)) pizza_app pizza_app))) =
     Some (json_text (JArr [history_entry (str ''Pizza'') 1700000003200])) \<and>
   side (snd (flipCoin (calm_env (3/4)) pizza_app pizza_app)) = Some (str ''B'') \<and>
   getDisplayLabel (pizza_app\<lparr>side := side (snd (flipCoin (calm_env (3/4)) pizza_app pizza_app))\<rparr>) = str ''B'' \<and>
   item (storage (snd (flipCoin (calm_env (3/4)) pizza_app pizza_app))) =
     Some (json_text (JArr [history_entry (str ''B'') 1700000003200]))"
proof -
  have pre: "isCustomMode pizza_app" "\<not> flipInProgressRef pizza_app" "\<not> isFlipping pizza_app"
    "\<not> setItem_rejects (storage pizza_app)" "customSideA pizza_app = str ''Pizza''"
    "customSideB pizza_app = []" "storage pizza_app = empty_storage"
    by (simp_all add: pizza_app_def initial_app_def empty_storage_def)
  have env: "\<forall>p. \<not> throws (calm_env r) p" "random (calm_env r) = r"
    "runtime (calm_env r) = reference_runtime" "date_now (calm_env r) = 1700000003200" for r
    by (simp_all add: calm_env_def)
  have labels: "resolved_label (str ''Pizza'') (str ''A'') = str ''Pizza''"
    "resolved_label [] (str ''B'') = str ''B''"
    by (simp_all add: resolved_label_def trim_def str_def isWhiteSpace_def)
  have h0: "getHistory reference_runtime empty_storage = []"
    by (simp add: getHistory_def getHistory_try_def getItem_def empty_storage_def)
  have a: "str ''Pizza'' = (if random (calm_env (1/4)) < 0.5 then resolved_label (customSideA pizza_app) (str ''A'')
                  else resolved_label (customSideB pizza_app) (str ''B''))"
    by (simp add: env pre labels)
  have b: "str ''B'' = (if random (calm_env (3/4)) < 0.5 then resolved_label (customSideA pizza_app) (str ''A'')
                  else resolved_label (customSideB pizza_app) (str ''B''))"
    by (simp add: env pre labels)
  from custom_flip_outcome_and_label [OF pre(1,2,3) env(1) pre(4) a]
    custom_flip_outcome_and_label [OF pre(1,2,3) env(1) pre(4) b]
  show ?thesis
    by (auto simp add: env pre(7) h0 reference_runtime_sel)
qed

text \<open>
  C4 does not hold of a flip started by flicking the phone. In Custom mode with labels
  \<open>Pizza\<close> and the empty string, a sample with \<open>yDelta = 0.9\<close> makes the listener call
  \<open>flipCoin\<close>; the listener's \<open>flipCoin\<close> is that of the first render, for which the mode
  is not Custom, so with a draw below 0.5 the flip commits \<open>Heads\<close>, shows \<open>Heads\<close> and logs
  \<open>Heads\<close>, where the specification requires side A, shown and logged as \<open>Pizza\<close>.
\<close>

theorem flick_flip_ignores_custom_mode:
  "isCustomMode pizza_app \<and>
   fst (accelerometerListener 1700000000000 1 (Some 0, Some 0.9, Some 0) pizza_app) = [FlipCoin] \<and>
   side (snd (listener_flipCoin (calm_env (1/4))
     (snd (accelerometerListener 1700000000000 1 (Some 0, Some 0.9, Some 0) pizza_app)))) =
     Some (str ''Heads'') \<and>
   getDisplayLabel (snd (listener_flipCoin (calm_env (1/4))
     (snd (accelerometerListener 1700000000000 1 (Some 0, Some 0.9, Some 0) pizza_app)))) =
     str ''Heads'' \<and>
   item (storage (snd (listener_flipCoin (calm_env (1/4))
     (snd (accelerometerListener 1700000000000 1 (Some 0, Some 0.9, Some 0) pizza_app))))) =
     Some (json_text (JArr [history_entry (str ''Heads'') 1700000003200]))"
proof -
  let ?s = "pizza_app\<lparr>prevYRef := 0.9, lastFlickTimeRef := 1700000000000\<rparr>"
  have listen: "accelerometerListener 1700000000000 1 (Some 0, Some 0.9, Some 0) pizza_app = ([FlipCoin], ?s)"
    by (simp add: accelerometerListener_def pizza_app_def initial_app_def)
  have pre: "\<not> flipInProgressRef ?s" "\<not> isFlipping mount_render" "\<not> isCustomMode mount_render"
    "storage ?s = empty_storage" "isCustomMode pizza_app"
    by (simp_all add: pizza_app_def initial_app_def mount_render_def)
  have env: "\<forall>p. \<not> throws (calm_env r) p" "random (calm_env r) = r"
    "runtime (calm_env r) = reference_runtime" "date_now (calm_env r) = 1700000003200" for r
    by (simp_all add: calm_env_def)
  have result: "determine_result (random (calm_env (1/4))) mount_render = str ''Heads''"
    "historyLabel mount_render (str ''Heads'') = str ''Heads''"
    by (simp_all add: determine_result_def historyLabel_def mount_render_def str_def env)
  have trimmed: "trim (str ''Heads'') = str ''Heads''"
    by (simp add: trim_def str_def isWhiteSpace_def)
  have h0: "getHistory reference_runtime empty_storage = []"
    by (simp add: getHistory_def getHistory_try_def getItem_def empty_storage_def)
  have saved: "saveFlipToHistory reference_runtime 1700000003200 (JStr (str ''Heads'')) empty_storage =
      (True, empty_storage\<lparr>item := Some (json_text (JArr [history_entry (str ''Heads'') 1700000003200]))\<rparr>)"
    by (simp add: saveFlipToHistory_def saveFlipToHistory_try_def h0 trimmed setItem_def slice0_def
        MAX_HISTORY_ENTRIES_def reference_runtime_sel str_nonempty example_flags)
  have run: "listener_flipCoin (calm_env (1/4)) ?s =
      (None, ?s\<lparr>side := Some (str ''Heads''), isFlipping := False, flipInProgressRef := False,
         storage := empty_storage\<lparr>item := Some (json_text (JArr [history_entry (str ''Heads'') 1700000003200]))\<rparr>\<rparr>)"
    unfolding listener_flipCoin_def
    by (simp add: flipCoin_run [OF pre(1,2) env(1)] env(3,4) result pre(4) saved)
  have shown: "getDisplayLabel (?s\<lparr>side := Some (str ''Heads''), isFlipping := False, flipInProgressRef := False,
         storage := empty_storage\<lparr>item := Some (json_text (JArr [history_entry (str ''Heads'') 1700000003200]))\<rparr>\<rparr>) =
       str ''Heads''"
    by (simp add: getDisplayLabel_def str_def)
  show ?thesis
    by (simp only: listen run shown pre(5) fst_conv snd_conv) (simp add: pizza_app_def)
qed

subsection \<open>Label edits\<close>

lemma apply_edit_bounded:
  "length (customSideA s) \<le> 150 \<and> length (customSideB s) \<le> 150 \<Longrightarrow>
   length (customSideA (apply_edit s e)) \<le> 150 \<and> length (customSideB (apply_edit s e)) \<le> 150"
  by (cases e) (simp_all add: handleCustomSideAChange_def handleCustomSideBChange_def substring0_def)

lemma foldl_apply_edit_bounded:
  "length (customSideA s) \<le> 150 \<and> length (customSideB s) \<le> 150 \<Longrightarrow>
   length (customSideA (foldl apply_edit s es)) \<le> 150 \<and> length (customSideB (foldl apply_edit s es)) \<le> 150"
proof (induction es arbitrary: s)
  case Nil
  then show ?case by simp
next
  case (Cons e es)
  from Cons.prems have "length (customSideA (apply_edit s e)) \<le> 150 \<and> length (customSideB (apply_edit s e)) \<le> 150"
    by (rule apply_edit_bounded)
  then show ?case using Cons.IH by simp
qed

text \<open>
  C9. An edit of a label stores exactly the first 150 code units of the text, white space
  included; so after any sequence of edits neither label is longer than 150.
\<close>

theorem label_edits_truncate_to_150:
  "customSideA (handleCustomSideAChange text s) = take 150 text \<and>
   customSideB (handleCustomSideBChange text s) = take 150 text \<and>
   (length (customSideA s) \<le> 150 \<and> length (customSideB s) \<le> 150 \<longrightarrow>
    length (customSideA (foldl apply_edit s es)) \<le> 150 \<and>
    length (customSideB (foldl apply_edit s es)) \<le> 150)"
  using foldl_apply_edit_bounded [of s es]
  by (simp add: handleCustomSideAChange_def handleCustomSideBChange_def substring0_def)

theorem label_edits_truncate_to_150_witness:
  "customSideA (handleCustomSideAChange (str ''  Pizza night  '') (initial_app empty_storage)) = str ''  Pizza night  '' \<and>
   customSideB (handleCustomSideBChange (replicate 151 0x20 @ str ''x'') (initial_app empty_storage)) = replicate 150 0x20 \<and>
   length (customSideA (foldl apply_edit (initial_app empty_storage) [EditA (replicate 200 0x61), EditB (replicate 151 0x62), EditA (replicate 150 0x63)])) \<le> 150 \<and>
   length (customSideB (foldl apply_edit (initial_app empty_storage) [EditA (replicate 200 0x61), EditB (replicate 151 0x62), EditA (replicate 150 0x63)])) \<le> 150"
  using label_edits_truncate_to_150 [of "str ''  Pizza night  ''" "initial_app empty_storage" "[]"]
    label_edits_truncate_to_150 [of "replicate 151 0x20 @ str ''x''" "initial_app empty_storage" "[EditA (replicate 200 0x61), EditB (replicate 151 0x62), EditA (replicate 150 0x63)]"]
  by (simp add: initial_app_def str_def)

subsection \<open>Flick detection\<close>

lemma listener_flick:
  assumes "y - prevYRef s > 0.8" and "t - lastFlickTimeRef s > 4000" and "\<not> flipInProgressRef s"
  shows "accelerometerListener t fresh (Some x, Some y, Some z) s =
           (if isMounted s then [FlipCoin] else [], s\<lparr>prevYRef := y, lastFlickTimeRef := t\<rparr>)"
  using assms by (simp add: accelerometerListener_def Let_def)

lemma listener_no_flick:
  assumes "\<not> (y - prevYRef s > 0.8 \<and> t - lastFlickTimeRef s > 4000 \<and> \<not> flipInProgressRef s)"
  shows "FlipCoin \<notin> set (fst (accelerometerListener t fresh (Some x, Some y, Some z) s))"
  using assms by (auto simp: accelerometerListener_def Let_def split: option.splits)

text \<open>
  C8. On a sample whose \<open>yDelta\<close> exceeds 0.8 the listener calls \<open>flipCoin\<close> only if more
  than 4000 ms have passed since the last flick and no flip is in progress; when these
  hold it records the flick and returns, touching neither the shake time nor the shake
  timer; and of two samples with \<open>yDelta = 0.9\<close> that come 500 ms apart with no flip in
  progress, the first calls \<open>flipCoin\<close> and the second does not.
\<close>

theorem flick_debounce:
  "(y - prevYRef s > 0.8 \<and> FlipCoin \<in> set (fst (accelerometerListener t fresh (Some x, Some y, Some z) s)) \<longrightarrow>
      t - lastFlickTimeRef s > 4000 \<and> \<not> flipInProgressRef s) \<and>
   (y - prevYRef s > 0.8 \<and> t - lastFlickTimeRef s > 4000 \<and> \<not> flipInProgressRef s \<longrightarrow>
      accelerometerListener t fresh (Some x, Some y, Some z) s =
        (if isMounted s then [FlipCoin] else [], s\<lparr>prevYRef := y, lastFlickTimeRef := t\<rparr>)) \<and>
   (isMounted s \<and> \<not> flipInProgressRef s \<and> t - lastFlickTimeRef s > 4000 \<longrightarrow>
      fst (accelerometerListener t fresh (Some x, Some (prevYRef s + 0.9), Some z) s) = [FlipCoin] \<and>
      \<not> flipInProgressRef (snd (accelerometerListener t fresh (Some x, Some (prevYRef s + 0.9), Some z) s)) \<and>
      FlipCoin \<notin> set (fst (accelerometerListener (t + 500) fresh' (Some x', Some (prevYRef s + 0.9 + 0.9), Some z')
         (snd (accelerometerListener t fresh (Some x, Some (prevYRef s + 0.9), Some z) s)))))"
proof -
  have only_if: "t - lastFlickTimeRef s > 4000 \<and> \<not> flipInProgressRef s"
    if "y - prevYRef s > 0.8"
      and "FlipCoin \<in> set (fst (accelerometerListener t fresh (Some x, Some y, Some z) s))"
    using that listener_no_flick [of y s t fresh x z] by blast
  have fires: "accelerometerListener t fresh (Some x, Some y, Some z) s =
        (if isMounted s then [FlipCoin] else [], s\<lparr>prevYRef := y, lastFlickTimeRef := t\<rparr>)"
    if "y - prevYRef s > 0.8" and "t - lastFlickTimeRef s > 4000" and "\<not> flipInProgressRef s"
    using that by (rule listener_flick)
  have twice: "fst (accelerometerListener t fresh (Some x, Some (prevYRef s + 0.9), Some z) s) = [FlipCoin] \<and>
      \<not> flipInProgressRef (snd (accelerometerListener t fresh (Some x, Some (prevYRef s + 0.9), Some z) s)) \<and>
      FlipCoin \<notin> set (fst (accelerometerListener (t + 500) fresh' (Some x', Some (prevYRef s + 0.9 + 0.9), Some z')
         (snd (accelerometerListener t fresh (Some x, Some (prevYRef s + 0.9), Some z) s))))"
    if "isMounted s" and "\<not> flipInProgressRef s" and "t - lastFlickTimeRef s > 4000"
  proof -
    let ?s1 = "s\<lparr>prevYRef := prevYRef s + 0.9, lastFlickTimeRef := t\<rparr>"
    have first: "accelerometerListener t fresh (Some x, Some (prevYRef s + 0.9), Some z) s = ([FlipCoin], ?s1)"
      using that listener_flick [of "prevYRef s + 0.9" s t fresh x z] by simp
    have "\<not> (t + 500 - lastFlickTimeRef ?s1 > 4000)" by simp
    then have "FlipCoin \<notin> set (fst (accelerometerListener (t + 500) fresh'
        (Some x', Some (prevYRef s + 0.9 + 0.9), Some z') ?s1))"
      by (intro listener_no_flick) blast
    with that(2) show ?thesis by (simp add: first)
  qed
  from only_if fires twice show ?thesis by blast
qed

theorem flick_debounce_witness:
  "accelerometerListener 1700000000000 1 (Some 0, Some 0.9, Some 0) (initial_app empty_storage) =
     ([FlipCoin], (initial_app empty_storage)\<lparr>prevYRef := 0.9, lastFlickTimeRef := 1700000000000\<rparr>) \<and>
   FlipCoin \<notin> set (fst (accelerometerListener (1700000000000 + 500) 2 (Some 0, Some (0.9 + 0.9), Some 0)
     (snd (accelerometerListener 1700000000000 1 (Some 0, Some 0.9, Some 0) (initial_app empty_storage)))))"
  using flick_debounce [where y = "0.9" and s = "initial_app empty_storage" and t = 1700000000000
      and fresh = 1 and x = 0 and z = 0 and fresh' = 2 and x' = 0 and z' = 0]
  by (auto simp: initial_app_def)

end
